theory Spec2Isabelle
  imports Main "HOL-Library.List_Lexorder" "HOL-Library.Sublist"
begin

section \<open>The document tree\<close>

text \<open>
  The selection code of \<^verbatim>\<open>SelectionManager\<close> reads a document through the DOM: a tree
  of element, text and comment nodes. A node reference is modelled by the path of child
  indices that leads to the node from the top of the tree (the document node, itself a
  container of children like an element), so two text nodes with the same data stay
  distinct. Strings are lists of code units, which is what \<^verbatim>\<open>length\<close> counts.
\<close>

datatype node = Element "node list" | Text string | Comment string

type_synonym path = "nat list"

fun nodeType :: "node \<Rightarrow> nat" where
  "nodeType (Element cs) = 1"
| "nodeType (Text d) = 3"
| "nodeType (Comment d) = 8"

definition ELEMENT_NODE :: nat where
  "ELEMENT_NODE = 1"

definition TEXT_NODE :: nat where
  "TEXT_NODE = 3"

fun childNodes :: "node \<Rightarrow> node list" where
  "childNodes (Element cs) = cs"
| "childNodes (Text d) = []"
| "childNodes (Comment d) = []"

text \<open>The data of the text nodes of a subtree, in tree order; comments carry none.\<close>

fun text_of :: "node \<Rightarrow> string" where
  "text_of (Element cs) = concat (map text_of cs)"
| "text_of (Text d) = d"
| "text_of (Comment d) = []"

fun textContent :: "node \<Rightarrow> string" where
  "textContent (Element cs) = text_of (Element cs)"
| "textContent (Text d) = d"
| "textContent (Comment d) = d"

text \<open>The DOM's length of a node: its number of children, or the length of its data.\<close>

fun node_length :: "node \<Rightarrow> nat" where
  "node_length (Element cs) = length cs"
| "node_length (Text d) = length d"
| "node_length (Comment d) = length d"

fun node_at :: "node \<Rightarrow> path \<Rightarrow> node option" where
  "node_at n [] = Some n"
| "node_at (Element cs) (i # p) = (if i < length cs then node_at (cs ! i) p else None)"
| "node_at (Text d) (i # p) = None"
| "node_at (Comment d) (i # p) = None"

text \<open>All nodes of a subtree with their references, in tree order (depth first, pre-order).\<close>

fun tree_order :: "path \<Rightarrow> node \<Rightarrow> (path \<times> node) list"
  and tree_order_list :: "path \<Rightarrow> nat \<Rightarrow> node list \<Rightarrow> (path \<times> node) list" where
  "tree_order p (Element cs) = (p, Element cs) # tree_order_list p 0 cs"
| "tree_order p (Text d) = [(p, Text d)]"
| "tree_order p (Comment d) = [(p, Comment d)]"
| "tree_order_list p i [] = []"
| "tree_order_list p i (c # cs) = tree_order (p @ [i]) c @ tree_order_list p (Suc i) cs"

text \<open>The children of the node at \<open>p\<close> with their references, first child first.\<close>

fun child_refs :: "path \<Rightarrow> nat \<Rightarrow> node list \<Rightarrow> (path \<times> node) list" where
  "child_refs p i [] = []"
| "child_refs p i (c # cs) = (p @ [i], c) # child_refs p (Suc i) cs"

section \<open>Boundary points and ranges of the platform\<close>

text \<open>
  A boundary point is a node and an offset into it. Their relative position follows the
  DOM standard: equal nodes compare by offset; if the first node follows the second in
  tree order the answer is the mirror image of the swapped question; if the first node is
  an ancestor of the second, the child of the first that holds the second is compared with
  the first offset; otherwise the first point is before. Tree order on references is the
  lexicographic order of paths, a prefix (an ancestor) first.
\<close>

datatype position = Before | Equal | After

type_synonym boundary = "path \<times> nat"

definition is_ancestor :: "path \<Rightarrow> path \<Rightarrow> bool" where
  "is_ancestor a b \<longleftrightarrow> length a < length b \<and> take (length a) b = a"

definition is_following :: "path \<Rightarrow> path \<Rightarrow> bool" where
  "is_following a b \<longleftrightarrow> b < a"

definition position_from_ancestor :: "boundary \<Rightarrow> boundary \<Rightarrow> position" where
  "position_from_ancestor A B =
     (if is_ancestor (fst A) (fst B) \<and> fst B ! length (fst A) < snd A then After else Before)"

definition position_of :: "boundary \<Rightarrow> boundary \<Rightarrow> position" where
  "position_of A B =
     (if fst A = fst B then
        (if snd A = snd B then Equal else if snd A < snd B then Before else After)
      else if is_following (fst A) (fst B) then
        (case position_from_ancestor B A of Before \<Rightarrow> After | Equal \<Rightarrow> Equal | After \<Rightarrow> Before)
      else position_from_ancestor A B)"

record Range =
  startContainer :: path
  startOffset :: nat
  endContainer :: path
  endOffset :: nat

definition start_point :: "Range \<Rightarrow> boundary" where
  "start_point r = (startContainer r, startOffset r)"

definition end_point :: "Range \<Rightarrow> boundary" where
  "end_point r = (endContainer r, endOffset r)"

definition range_collapsed :: "Range \<Rightarrow> bool" where
  "range_collapsed r \<longleftrightarrow> startContainer r = endContainer r \<and> startOffset r = endOffset r"

text \<open>
  Platform calls can fail. \<open>IndexSizeError\<close> is the standard's error for an offset beyond
  the node's length; \<open>NotInDocument\<close> stands for a reference that names no node of the
  tree; \<open>Rejected\<close> is any other refusal of a call by the platform, the case the
  \<^verbatim>\<open>try\<close> block of \<^verbatim>\<open>importSelection\<close> is written for. A platform is described by
  the calls it rejects; a conforming platform rejects none.
\<close>

datatype api = CreateRange | SetStart | SetEnd | Collapse | RemoveAllRanges | AddRange

datatype dom_error = IndexSizeError | NotInDocument | Rejected api

type_synonym platform = "api \<Rightarrow> bool"

definition conforming :: platform where
  "conforming = (\<lambda>a. False)"

definition bind :: "'e + 'a \<Rightarrow> ('a \<Rightarrow> 'e + 'b) \<Rightarrow> 'e + 'b" where
  "bind r f = (case r of Inl e \<Rightarrow> Inl e | Inr x \<Rightarrow> f x)"

definition createRange :: "platform \<Rightarrow> dom_error + Range" where
  "createRange pf =
     (if pf CreateRange then Inl (Rejected CreateRange)
      else Inr \<lparr>startContainer = [], startOffset = 0, endContainer = [], endOffset = 0\<rparr>)"

definition setStart :: "platform \<Rightarrow> node \<Rightarrow> Range \<Rightarrow> path \<Rightarrow> nat \<Rightarrow> dom_error + Range" where
  "setStart pf t r p off =
     (if pf SetStart then Inl (Rejected SetStart)
      else case node_at t p of
        None \<Rightarrow> Inl NotInDocument
      | Some n \<Rightarrow>
          if off > node_length n then Inl IndexSizeError
          else if position_of (p, off) (end_point r) = After
          then Inr \<lparr>startContainer = p, startOffset = off, endContainer = p, endOffset = off\<rparr>
          else Inr (r\<lparr>startContainer := p, startOffset := off\<rparr>))"

definition setEnd :: "platform \<Rightarrow> node \<Rightarrow> Range \<Rightarrow> path \<Rightarrow> nat \<Rightarrow> dom_error + Range" where
  "setEnd pf t r p off =
     (if pf SetEnd then Inl (Rejected SetEnd)
      else case node_at t p of
        None \<Rightarrow> Inl NotInDocument
      | Some n \<Rightarrow>
          if off > node_length n then Inl IndexSizeError
          else if position_of (p, off) (start_point r) = Before
          then Inr \<lparr>startContainer = p, startOffset = off, endContainer = p, endOffset = off\<rparr>
          else Inr (r\<lparr>endContainer := p, endOffset := off\<rparr>))"

definition collapse :: "platform \<Rightarrow> Range \<Rightarrow> bool \<Rightarrow> dom_error + Range" where
  "collapse pf r toStart =
     (if pf Collapse then Inl (Rejected Collapse)
      else if toStart then Inr (r\<lparr>endContainer := startContainer r, endOffset := startOffset r\<rparr>)
      else Inr (r\<lparr>startContainer := endContainer r, startOffset := endOffset r\<rparr>))"

definition cloneRange :: "Range \<Rightarrow> Range" where
  "cloneRange r = r"

definition selectNodeContents :: "node \<Rightarrow> Range \<Rightarrow> path \<Rightarrow> dom_error + Range" where
  "selectNodeContents t r p =
     (case node_at t p of
        None \<Rightarrow> Inl NotInDocument
      | Some n \<Rightarrow>
          Inr \<lparr>startContainer = p, startOffset = 0, endContainer = p, endOffset = node_length n\<rparr>)"

text \<open>
  A node is contained in a range when its start is after the range's start and its end is
  before the range's end. The string of a range is the selected part of its start node (if
  that is a text node), the data of the text nodes it contains in tree order, and the
  selected part of its end node (if that is a text node); when both ends lie in one text
  node, the substring between the offsets.
\<close>

definition contained :: "Range \<Rightarrow> path \<times> node \<Rightarrow> bool" where
  "contained r x \<longleftrightarrow>
     position_of (fst x, 0) (start_point r) = After \<and>
     position_of (fst x, node_length (snd x)) (end_point r) = Before"

fun text_data :: "node option \<Rightarrow> string option" where
  "text_data (Some (Text d)) = Some d"
| "text_data (Some (Element cs)) = None"
| "text_data (Some (Comment d)) = None"
| "text_data None = None"

fun contained_text :: "Range \<Rightarrow> (path \<times> node) list \<Rightarrow> string" where
  "contained_text r [] = []"
| "contained_text r ((p, Text d) # xs) =
     (if contained r (p, Text d) then d else []) @ contained_text r xs"
| "contained_text r ((p, Element cs) # xs) = contained_text r xs"
| "contained_text r ((p, Comment d) # xs) = contained_text r xs"

definition toString :: "node \<Rightarrow> Range \<Rightarrow> string" where
  "toString t r =
     (case text_data (node_at t (startContainer r)) of
        Some d \<Rightarrow>
          if startContainer r = endContainer r
          then take (endOffset r - startOffset r) (drop (startOffset r) d)
          else drop (startOffset r) d @ contained_text r (tree_order [] t) @
               (case text_data (node_at t (endContainer r)) of
                  Some e \<Rightarrow> take (endOffset r) e | None \<Rightarrow> [])
      | None \<Rightarrow>
          contained_text r (tree_order [] t) @
          (case text_data (node_at t (endContainer r)) of
             Some e \<Rightarrow> take (endOffset r) e | None \<Rightarrow> []))"

text \<open>
  The document: its tree and its live selection. \<^verbatim>\<open>getSelection()\<close> is \<open>None\<close> for a
  document without a browsing context, otherwise the list of the selection's ranges.
\<close>

record document =
  tree :: node
  selection :: "Range list option"

definition getSelection :: "document \<Rightarrow> Range list option" where
  "getSelection doc = selection doc"

definition removeAllRanges :: "platform \<Rightarrow> document \<Rightarrow> dom_error + document" where
  "removeAllRanges pf doc =
     (if pf RemoveAllRanges then Inl (Rejected RemoveAllRanges)
      else Inr (doc\<lparr>selection := Some []\<rparr>))"

definition addRange :: "platform \<Rightarrow> document \<Rightarrow> Range \<Rightarrow> dom_error + document" where
  "addRange pf doc r =
     (if pf AddRange then Inl (Rejected AddRange)
      else if selection doc = Some [] then Inr (doc\<lparr>selection := Some [r]\<rparr>)
      else Inr doc)"

section \<open>SelectionManager\<close>

record SerializedSelection =
  start :: int
  end' :: int
  startContainer' :: "path option"
  endContainer' :: "path option"
  collapsed :: bool

subsection \<open>exportSelection\<close>

definition exportSelection ::
  "platform \<Rightarrow> document \<Rightarrow> path option \<Rightarrow> dom_error + SerializedSelection option" where
  "exportSelection pf doc root =
     (case root of
        None \<Rightarrow> Inr None
      | Some rp \<Rightarrow>
          (case getSelection doc of
             None \<Rightarrow> Inr None
           | Some [] \<Rightarrow> Inr None
           | Some (r # others) \<Rightarrow>
               bind (selectNodeContents (tree doc) (cloneRange r) rp) (\<lambda>pre1.
               bind (setEnd pf (tree doc) pre1 (startContainer r) (startOffset r))
                 (\<lambda>preSelectionRange.
                   let start = int (length (toString (tree doc) preSelectionRange)) in
                   Inr (Some \<lparr>start = start,
                              end' = start + int (length (toString (tree doc) r)),
                              startContainer' = Some (startContainer r),
                              endContainer' = Some (endContainer r),
                              collapsed = range_collapsed r\<rparr>)))))"

subsection \<open>importSelection\<close>

text \<open>
  The variables of the walk. \<open>visited\<close> is a history variable that is not in the source:
  it records, in order, the nodes that pass the node type filter at the head of the loop.
\<close>

record walk_state =
  node :: "(path \<times> node) option"
  nodeStack :: "(path \<times> node) list"
  charIndex :: nat
  foundStart :: bool
  stop :: bool
  range' :: Range
  visited :: "path list"

definition foundEnd :: bool where
  "foundEnd = False"

text \<open>\<^verbatim>\<open>node = nodeStack.pop() || null\<close>: the array's last element is the stack's top.\<close>

definition pop :: "walk_state \<Rightarrow> walk_state" where
  "pop st =
     (if nodeStack st = [] then st\<lparr>node := None\<rparr>
      else st\<lparr>node := Some (last (nodeStack st)), nodeStack := butlast (nodeStack st)\<rparr>)"

definition checkStart ::
  "platform \<Rightarrow> node \<Rightarrow> SerializedSelection \<Rightarrow> path \<Rightarrow> nat \<Rightarrow> walk_state \<Rightarrow> dom_error + walk_state" where
  "checkStart pf t s p nextCharIndex st =
     (if \<not> foundStart st \<and> start s \<ge> int (charIndex st) \<and> start s \<le> int nextCharIndex
      then bind (setStart pf t (range' st) p (nat (start s - int (charIndex st))))
             (\<lambda>r. Inr (st\<lparr>range' := r, foundStart := True\<rparr>))
      else Inr st)"

definition checkEnd ::
  "platform \<Rightarrow> node \<Rightarrow> SerializedSelection \<Rightarrow> path \<Rightarrow> nat \<Rightarrow> walk_state \<Rightarrow> dom_error + walk_state" where
  "checkEnd pf t s p nextCharIndex st =
     (if foundStart st \<and> end' s \<ge> int (charIndex st) \<and> end' s \<le> int nextCharIndex
      then bind (setEnd pf t (range' st) p (nat (end' s - int (charIndex st))))
             (\<lambda>r. Inr (st\<lparr>range' := r, stop := True\<rparr>))
      else Inr st)"

definition visitText ::
  "platform \<Rightarrow> node \<Rightarrow> SerializedSelection \<Rightarrow> path \<Rightarrow> node \<Rightarrow> walk_state \<Rightarrow> dom_error + walk_state" where
  "visitText pf t s p n st =
     (let nextCharIndex = charIndex st + length (textContent n) in
      bind (checkStart pf t s p nextCharIndex st) (\<lambda>st1.
      bind (checkEnd pf t s p nextCharIndex st1) (\<lambda>st2.
      Inr (st2\<lparr>charIndex := nextCharIndex\<rparr>))))"

definition loopBody ::
  "platform \<Rightarrow> node \<Rightarrow> SerializedSelection \<Rightarrow> walk_state \<Rightarrow> dom_error + walk_state" where
  "loopBody pf t s st =
     (case node st of
        None \<Rightarrow> Inr st
      | Some (p, n) \<Rightarrow>
          if nodeType n > 3 then Inr (pop st)
          else
            bind (if nodeType n = TEXT_NODE \<and> \<not> foundEnd
                  then visitText pf t s p n (st\<lparr>visited := visited st @ [p]\<rparr>)
                  else if \<not> stop st \<and> nodeType n = ELEMENT_NODE
                  then Inr (st\<lparr>visited := visited st @ [p],
                                nodeStack := nodeStack st @ rev (child_refs p 0 (childNodes n))\<rparr>)
                  else Inr (st\<lparr>visited := visited st @ [p]\<rparr>))
              (\<lambda>st1. Inr (if \<not> stop st1 then pop st1 else st1)))"

fun node_size :: "node \<Rightarrow> nat" where
  "node_size (Element cs) = Suc (sum_list (map node_size cs))"
| "node_size (Text d) = 1"
| "node_size (Comment d) = 1"

definition pending :: "walk_state \<Rightarrow> nat" where
  "pending st =
     (if stop st then 0
      else Suc ((case node st of None \<Rightarrow> 0 | Some x \<Rightarrow> node_size (snd x)) +
                sum_list (map (\<lambda>x. node_size (snd x)) (nodeStack st))))"

text \<open>
  The loop ends: every iteration either sets \<open>stop\<close> or replaces the current node by the
  top of the stack, after pushing at most the node's own children.
\<close>

lemma node_size_pos: "0 < node_size n"
  by (cases n) auto

lemma child_refs_size:
  "sum_list (map (\<lambda>x. node_size (snd x)) (child_refs p i cs)) = sum_list (map node_size cs)"
  by (induction cs arbitrary: i) auto

lemma sum_list_snoc_last:
  "xs \<noteq> [] \<Longrightarrow> sum_list (map f (butlast xs)) + f (last xs) = (sum_list (map f xs) :: nat)"
  by (induction xs) auto

lemma pending_pop:
  "\<not> stop st \<Longrightarrow>
   pending (pop st) = Suc (sum_list (map (\<lambda>x. node_size (snd x)) (nodeStack st)))"
proof (cases "nodeStack st = []")
  case True
  assume "\<not> stop st"
  with True show ?thesis by (simp add: pending_def pop_def)
next
  case False
  assume ns: "\<not> stop st"
  from False ns sum_list_snoc_last [OF False, of "\<lambda>x. node_size (snd x)"]
  show ?thesis by (simp add: pending_def pop_def add.commute)
qed

lemma checkStart_keeps:
  "checkStart pf t s p k st = Inr st' \<Longrightarrow>
   node st' = node st \<and> nodeStack st' = nodeStack st \<and> stop st' = stop st \<and>
   charIndex st' = charIndex st \<and> visited st' = visited st"
  by (auto simp: checkStart_def bind_def split: if_splits sum.splits)

lemma checkEnd_keeps:
  "checkEnd pf t s p k st = Inr st' \<Longrightarrow>
   node st' = node st \<and> nodeStack st' = nodeStack st \<and> foundStart st' = foundStart st \<and>
   charIndex st' = charIndex st \<and> visited st' = visited st"
  by (auto simp: checkEnd_def bind_def split: if_splits sum.splits)

lemma visitText_keeps:
  "visitText pf t s p n st = Inr st' \<Longrightarrow>
   node st' = node st \<and> nodeStack st' = nodeStack st \<and> visited st' = visited st \<and>
   charIndex st' = charIndex st + length (textContent n)"
  by (auto simp: visitText_def bind_def Let_def split: sum.splits
      dest!: checkStart_keeps checkEnd_keeps)

lemma loopBody_Element:
  "node st = Some (p, Element cs) \<Longrightarrow> \<not> stop st \<Longrightarrow>
   loopBody pf t s st = Inr (pop (st\<lparr>visited := visited st @ [p],
        nodeStack := nodeStack st @ rev (child_refs p 0 cs)\<rparr>))"
  by (simp add: loopBody_def bind_def ELEMENT_NODE_def TEXT_NODE_def)

lemma loopBody_Comment:
  "node st = Some (p, Comment d) \<Longrightarrow> loopBody pf t s st = Inr (pop st)"
  by (simp add: loopBody_def)

lemma loopBody_Text:
  "node st = Some (p, Text d) \<Longrightarrow>
   loopBody pf t s st =
     bind (visitText pf t s p (Text d) (st\<lparr>visited := visited st @ [p]\<rparr>))
       (\<lambda>st1. Inr (if \<not> stop st1 then pop st1 else st1))"
  by (simp add: loopBody_def TEXT_NODE_def foundEnd_def)

lemma loopBody_pending:
  assumes "loopBody pf t s st = Inr st'" "\<not> stop st" "node st \<noteq> None"
  shows "pending st' < pending st"
proof -
  from assms(3) obtain p n where nd: "node st = Some (p, n)" by auto
  show ?thesis
  proof (cases n)
    case (Element cs)
    define st1 where "st1 = st\<lparr>visited := visited st @ [p],
        nodeStack := nodeStack st @ rev (child_refs p 0 cs)\<rparr>"
    from assms(1,2) nd Element have st': "st' = pop st1"
      by (simp add: loopBody_Element st1_def)
    have ns: "\<not> stop st1" using assms(2) by (simp add: st1_def)
    have "sum_list (map (\<lambda>x. node_size (snd x)) (nodeStack st1)) =
      sum_list (map (\<lambda>x. node_size (snd x)) (nodeStack st)) + sum_list (map node_size cs)"
      by (simp add: st1_def rev_map [symmetric] child_refs_size)
    with pending_pop [OF ns] st' have "pending st' =
      Suc (sum_list (map (\<lambda>x. node_size (snd x)) (nodeStack st)) + sum_list (map node_size cs))"
      by simp
    moreover have "pending st = Suc (Suc (sum_list (map node_size cs)) +
      sum_list (map (\<lambda>x. node_size (snd x)) (nodeStack st)))"
      using assms(2) nd Element by (simp add: pending_def)
    ultimately show ?thesis by simp
  next
    case (Text d)
    with assms(1) nd obtain st1 where
      v: "visitText pf t s p (Text d) (st\<lparr>visited := visited st @ [p]\<rparr>) = Inr st1"
      and st': "st' = (if \<not> stop st1 then pop st1 else st1)"
      by (auto simp: loopBody_Text bind_def split: sum.splits)
    from visitText_keeps [OF v] have k: "nodeStack st1 = nodeStack st" by simp
    have pst: "pending st = Suc (node_size n +
      sum_list (map (\<lambda>x. node_size (snd x)) (nodeStack st)))"
      using assms(2) nd by (simp add: pending_def)
    show ?thesis
    proof (cases "stop st1")
      case True
      with st' have "pending st' = 0" by (simp add: pending_def)
      with pst show ?thesis by simp
    next
      case False
      with st' have "pending st' = Suc (sum_list (map (\<lambda>x. node_size (snd x)) (nodeStack st1)))"
        by (simp add: pending_pop)
      with pst k node_size_pos [of n] show ?thesis by simp
    qed
  next
    case (Comment d)
    with assms(1) nd have "st' = pop st" by (simp add: loopBody_Comment)
    with assms(2) have "pending st' = Suc (sum_list (map (\<lambda>x. node_size (snd x)) (nodeStack st)))"
      by (simp add: pending_pop)
    moreover have "pending st = Suc (node_size n +
      sum_list (map (\<lambda>x. node_size (snd x)) (nodeStack st)))"
      using assms(2) nd by (simp add: pending_def)
    ultimately show ?thesis using node_size_pos [of n] by simp
  qed
qed

function walk :: "platform \<Rightarrow> node \<Rightarrow> SerializedSelection \<Rightarrow> walk_state \<Rightarrow> dom_error + walk_state" where
  "walk pf t s st =
     (if \<not> stop st \<and> node st \<noteq> None
      then (case loopBody pf t s st of Inl e \<Rightarrow> Inl e | Inr st' \<Rightarrow> walk pf t s st')
      else Inr st)"
  by pat_completeness auto
termination
  by (relation "measure (\<lambda>(pf, t, s, st). pending st)") (auto simp: loopBody_pending)

text \<open>
  The part of the \<^verbatim>\<open>try\<close> block that builds the range: the range is created and
  collapsed at the start of \<open>root\<close>, then the walk runs from \<open>root\<close> with an empty stack.
\<close>

definition restoreRange ::
  "platform \<Rightarrow> node \<Rightarrow> path \<Rightarrow> SerializedSelection \<Rightarrow> dom_error + walk_state" where
  "restoreRange pf t root s =
     bind (createRange pf) (\<lambda>r0.
     bind (setStart pf t r0 root 0) (\<lambda>r1.
     bind (collapse pf r1 True) (\<lambda>r2.
       case node_at t root of
         None \<Rightarrow> Inl NotInDocument
       | Some n \<Rightarrow>
           walk pf t s \<lparr>node = Some (root, n), nodeStack = [], charIndex = 0,
                         foundStart = False, stop = False, range' = r2, visited = []\<rparr>)))"

text \<open>
  \<^verbatim>\<open>selectRange\<close>; an exception leaves the document as the calls before it made it.
\<close>

definition selectRange ::
  "platform \<Rightarrow> document \<Rightarrow> Range \<Rightarrow> (dom_error \<times> document) + document" where
  "selectRange pf doc r =
     (case getSelection doc of
        None \<Rightarrow> Inr doc
      | Some sel \<Rightarrow>
          (case removeAllRanges pf doc of
             Inl e \<Rightarrow> Inl (e, doc)
           | Inr doc1 \<Rightarrow>
               (case addRange pf doc1 r of
                  Inl e \<Rightarrow> Inl (e, doc1)
                | Inr doc2 \<Rightarrow> Inr doc2)))"

text \<open>
  \<^verbatim>\<open>importSelection\<close> returns its boolean and the document as it leaves it. Null
  arguments are \<open>None\<close>; the \<^verbatim>\<open>catch\<close> turns every exception into \<open>False\<close>.
\<close>

definition importSelection ::
  "platform \<Rightarrow> document \<Rightarrow> path option \<Rightarrow> SerializedSelection option \<Rightarrow> bool \<times> document" where
  "importSelection pf doc root selectionState =
     (case selectionState of
        None \<Rightarrow> (False, doc)
      | Some s \<Rightarrow>
          (case root of
             None \<Rightarrow> (False, doc)
           | Some rp \<Rightarrow>
               (case restoreRange pf (tree doc) rp s of
                  Inl e \<Rightarrow> (False, doc)
                | Inr st \<Rightarrow>
                    (case selectRange pf doc (range' st) of
                       Inl (e, doc') \<Rightarrow> (False, doc')
                     | Inr doc' \<Rightarrow> (True, doc')))))"

section \<open>Notions used in the statements\<close>

text \<open>
  \<open>text_before n p k\<close> counts the characters of text in the subtree \<open>n\<close> that lie before
  the boundary point \<open>(p, k)\<close>, a reference relative to \<open>n\<close>: the text of the children
  before the point and, inside a text node, the characters before the offset. A point is
  valid when its node exists and its offset is within the node's length; a range is valid
  when its two points are and its start is not after its end, which is what the platform
  keeps true of every live range.
\<close>

fun text_before :: "node \<Rightarrow> path \<Rightarrow> nat \<Rightarrow> nat" where
  "text_before (Text d) [] k = min k (length d)"
| "text_before (Comment d) [] k = 0"
| "text_before (Element cs) [] k = length (concat (map text_of (take k cs)))"
| "text_before (Element cs) (i # p) k =
     length (concat (map text_of (take i cs))) + text_before (cs ! i) p k"
| "text_before (Text d) (i # p) k = 0"
| "text_before (Comment d) (i # p) k = 0"

definition valid_point :: "node \<Rightarrow> boundary \<Rightarrow> bool" where
  "valid_point t b = (case node_at t (fst b) of None \<Rightarrow> False | Some n \<Rightarrow> snd b \<le> node_length n)"

definition valid_range :: "node \<Rightarrow> Range \<Rightarrow> bool" where
  "valid_range t r \<longleftrightarrow>
     valid_point t (start_point r) \<and> valid_point t (end_point r) \<and>
     position_of (start_point r) (end_point r) \<noteq> After"

text \<open>
  \<open>dfs\<close> lists the element and text nodes of a subtree in depth-first pre-order, leaving
  the nodes of other types out; \<open>char_count\<close> is the total length of the text nodes among
  the given references.
\<close>

fun dfs :: "path \<Rightarrow> node \<Rightarrow> path list"
  and dfs_list :: "path \<Rightarrow> nat \<Rightarrow> node list \<Rightarrow> path list" where
  "dfs p (Element cs) = p # dfs_list p 0 cs"
| "dfs p (Text d) = [p]"
| "dfs p (Comment d) = []"
| "dfs_list p i [] = []"
| "dfs_list p i (c # cs) = dfs (p @ [i]) c @ dfs_list p (Suc i) cs"

definition char_count :: "node \<Rightarrow> path list \<Rightarrow> nat" where
  "char_count t ps =
     sum_list (map (\<lambda>p. case node_at t p of Some (Text d) \<Rightarrow> length d | _ \<Rightarrow> 0) ps)"

text \<open>
  \<open>locate v c xs\<close> is the first text node of the list \<open>xs\<close>, counting its characters
  from \<open>c\<close>, whose end offset reaches \<open>v\<close>, together with the local offset of \<open>v\<close> in
  it: for \<open>c \<le> v\<close>, the first text node with \<open>counter \<le> v \<le> nodeEnd\<close>.
\<close>

fun locate :: "int \<Rightarrow> nat \<Rightarrow> (path \<times> node) list \<Rightarrow> boundary option" where
  "locate v c [] = None"
| "locate v c ((x, Text d) # xs) =
     (if v \<le> int (c + length d) then Some (x, nat (v - int c)) else locate v (c + length d) xs)"
| "locate v c ((x, Element cs) # xs) = locate v c xs"
| "locate v c ((x, Comment d) # xs) = locate v c xs"

section \<open>Example documents\<close>

text \<open>
  \<open>hello_doc\<close>: the document holds one element, the root handed to the selection code, with
  the single text node "Hello World" (11 characters). \<open>break_doc\<close>: the root holds one
  empty element (a line break) and the selection spans it. \<open>spans_doc\<close>: the root holds
  two elements with the text nodes "Hello " and "World" and a comment between them, and the
  selection runs from offset 3 of the first text node to offset 3 of the second
  ("lo Wor"). \<open>cursor_doc\<close>: \<open>hello_doc\<close> with the cursor at offset 3 of its text
  node. \<open>empty_text_doc\<close>: the root holds one empty text node, and \<open>at_empty_text\<close> is
  the state of the walk when it reaches that node. \<open>snapshot a b\<close> is the snapshot
  with offsets \<open>a\<close> and \<open>b\<close> and no node hints.
\<close>

definition hello_doc :: document where
  "hello_doc = \<lparr>tree = Element [Element [Text ''Hello World'']], selection = Some []\<rparr>"

definition break_doc :: document where
  "break_doc =
     \<lparr>tree = Element [Element [Element []]],
      selection = Some [\<lparr>startContainer = [0], startOffset = 0,
                          endContainer = [0], endOffset = 1\<rparr>]\<rparr>"

definition spans_doc :: document where
  "spans_doc =
     \<lparr>tree = Element [Element [Element [Text ''Hello ''], Comment ''x'', Element [Text ''World'']]],
      selection = Some [\<lparr>startContainer = [0, 0, 0], startOffset = 3,
                          endContainer = [0, 2, 0], endOffset = 3\<rparr>]\<rparr>"

definition cursor_doc :: document where
  "cursor_doc =
     \<lparr>tree = Element [Element [Text ''Hello World'']],
      selection = Some [\<lparr>startContainer = [0, 0], startOffset = 3,
                          endContainer = [0, 0], endOffset = 3\<rparr>]\<rparr>"

definition empty_text_doc :: document where
  "empty_text_doc = \<lparr>tree = Element [Element [Text []]], selection = Some []\<rparr>"

definition at_empty_text :: walk_state where
  "at_empty_text =
     \<lparr>node = Some ([0, 0], Text []), nodeStack = [], charIndex = 0, foundStart = False,
      stop = False,
      range' = \<lparr>startContainer = [0], startOffset = 0, endContainer = [0], endOffset = 0\<rparr>,
      visited = [[0]]\<rparr>"

definition snapshot :: "int \<Rightarrow> int \<Rightarrow> SerializedSelection" where
  "snapshot a b =
     \<lparr>start = a, end' = b, startContainer' = None, endContainer' = None, collapsed = (a = b)\<rparr>"

section \<open>Notions used in the proofs\<close>

text \<open>
  \<open>visit\<close> is what one iteration of the loop does to the variables other than \<open>node\<close>
  and \<open>nodeStack\<close>, and \<open>process\<close> runs it over a list of nodes until \<open>stop\<close> is set.
  \<open>worklist\<close> is the list of nodes the loop has still to see: the current node and the
  stack from its top, each with its subtree, in tree order. \<open>clear\<close> forgets the current
  node and the stack; \<open>initial\<close> is the state in which the walk starts.
\<close>

definition clear :: "walk_state \<Rightarrow> walk_state" where
  "clear st = st\<lparr>node := None, nodeStack := []\<rparr>"

fun visit :: "platform \<Rightarrow> node \<Rightarrow> SerializedSelection \<Rightarrow> path \<times> node \<Rightarrow> walk_state \<Rightarrow> dom_error + walk_state" where
  "visit pf t s (p, Text d) st = visitText pf t s p (Text d) (st\<lparr>visited := visited st @ [p]\<rparr>)"
| "visit pf t s (p, Element cs) st = Inr (st\<lparr>visited := visited st @ [p]\<rparr>)"
| "visit pf t s (p, Comment d) st = Inr st"

fun process :: "platform \<Rightarrow> node \<Rightarrow> SerializedSelection \<Rightarrow> (path \<times> node) list \<Rightarrow> walk_state \<Rightarrow> dom_error + walk_state" where
  "process pf t s [] st = Inr st"
| "process pf t s (x # xs) st =
     (if stop st then Inr st
      else case visit pf t s x st of Inl e \<Rightarrow> Inl e | Inr st' \<Rightarrow> process pf t s xs st')"

definition flat :: "(path \<times> node) list \<Rightarrow> (path \<times> node) list" where
  "flat xs = concat (map (\<lambda>x. tree_order (fst x) (snd x)) xs)"

definition worklist :: "walk_state \<Rightarrow> (path \<times> node) list" where
  "worklist st = (case node st of None \<Rightarrow> [] | Some x \<Rightarrow> flat (x # rev (nodeStack st)))"

definition span :: "boundary \<Rightarrow> boundary \<Rightarrow> Range" where
  "span a b = \<lparr>startContainer = fst a, startOffset = snd a, endContainer = fst b, endOffset = snd b\<rparr>"

definition initial :: "path \<Rightarrow> node \<Rightarrow> walk_state" where
  "initial rp root =
     \<lparr>node = Some (rp, root), nodeStack = [], charIndex = 0, foundStart = False,
      stop = False, range' = span (rp, 0) (rp, 0), visited = []\<rparr>"

text \<open>
  \<open>own_text\<close> is the data of a text node and empty for the other nodes; \<open>text_sum P xs\<close>
  adds the lengths of the text nodes of \<open>xs\<close> whose reference and length satisfy \<open>P\<close>;
  \<open>kept\<close> keeps the references of the element and text nodes of a list.
\<close>

fun own_text :: "node \<Rightarrow> string" where
  "own_text (Text d) = d"
| "own_text (Element cs) = []"
| "own_text (Comment d) = []"

fun text_sum :: "(path \<Rightarrow> nat \<Rightarrow> bool) \<Rightarrow> (path \<times> node) list \<Rightarrow> nat" where
  "text_sum P [] = 0"
| "text_sum P (x # xs) =
     (if P (fst x) (length (own_text (snd x))) then length (own_text (snd x)) else 0) + text_sum P xs"

fun is_text :: "node \<Rightarrow> bool" where
  "is_text (Text d) = True"
| "is_text (Element cs) = False"
| "is_text (Comment d) = False"

definition kept :: "(path \<times> node) list \<Rightarrow> path list" where
  "kept xs = map fst (filter (\<lambda>x. nodeType (snd x) \<le> 3) xs)"

text \<open>
  For \<open>0 \<le> start \<le> end\<close> the walk sets the start of the range to \<open>locate start\<close> and
  its end to \<open>locate end\<close>; \<open>expected\<close> is the resulting triple of \<open>foundStart\<close>,
  \<open>stop\<close> and the range. \<open>text_leads u v\<close> says that a text node \<open>u\<close> lies wholly
  before the node \<open>v\<close>.
\<close>

definition expected_end :: "boundary \<Rightarrow> int \<Rightarrow> nat \<Rightarrow> (path \<times> node) list \<Rightarrow> bool \<times> Range" where
  "expected_end A e c xs =
     (case locate e c xs of None \<Rightarrow> (False, span A A) | Some B \<Rightarrow> (True, span A B))"

definition expected :: "boundary \<Rightarrow> int \<Rightarrow> int \<Rightarrow> nat \<Rightarrow> (path \<times> node) list \<Rightarrow> bool \<times> bool \<times> Range" where
  "expected R b e c xs =
     (case locate b c xs of
        None \<Rightarrow> (False, False, span R R)
      | Some A \<Rightarrow> (True, expected_end A e c xs))"

definition text_leads :: "path \<times> node \<Rightarrow> path \<times> node \<Rightarrow> bool" where
  "text_leads u v \<longleftrightarrow> (is_text (snd u) \<longrightarrow> (\<forall>a k. fst u @ [a] < fst v @ [k]))"

section \<open>Supporting lemmas\<close>

subsection \<open>Positions are the lexicographic order of paths extended by the offset\<close>

lemma append_less_append: "(a @ x < a @ y) = (x < (y :: nat list))"
  by (induction a) auto

lemma snoc_less_snoc: "(a @ [i] < a @ [j]) = (i < (j::nat))"
  by (simp add: append_less_append)

lemma Nil_less_snoc: "[] < xs @ [j :: nat]"
  by (cases xs) auto

lemma position_of_Nil_Cons:
  "position_of ([], i) (l # b, j) = (if l < i then After else Before)"
  by (simp add: position_of_def is_following_def position_from_ancestor_def is_ancestor_def)

lemma position_of_Cons_Nil:
  "position_of (k # a, i) ([], j) = (if k < j then Before else After)"
  by (simp add: position_of_def is_following_def position_from_ancestor_def is_ancestor_def)

lemma position_of_Nil_Nil:
  "position_of ([], i) ([], j) = (if i = j then Equal else if i < j then Before else After)"
  by (simp add: position_of_def)

lemma position_of_Cons_Cons:
  "position_of (k # a, i) (l # b, j) =
     (if k < l then Before else if l < k then After else position_of (a, i) (b, j))"
  by (auto simp: position_of_def is_following_def position_from_ancestor_def is_ancestor_def)

lemma position_of_lex:
  "position_of (a, i) (b, j) =
     (if a @ [i] < b @ [j] then Before else if a @ [i] = b @ [j] then Equal else After)"
proof (induction a arbitrary: b)
  case Nil
  show ?case by (cases b) (auto simp: position_of_Nil_Nil position_of_Nil_Cons Nil_less_snoc)
next
  case (Cons k a)
  show ?case
  proof (cases b)
    case Nil
    then show ?thesis by (auto simp: position_of_Cons_Nil)
  next
    case (Cons l b')
    then show ?thesis using Cons.IH [of b'] by (auto simp: position_of_Cons_Cons)
  qed
qed

lemma position_Before: "position_of (a, i) (b, j) = Before \<longleftrightarrow> a @ [i] < b @ [j]"
  by (simp add: position_of_lex)

lemma position_After: "position_of (a, i) (b, j) = After \<longleftrightarrow> b @ [j] < a @ [i]"
  by (auto simp: position_of_lex not_less_iff_gr_or_eq)

lemma snoc_le_snoc: "(a @ [i] \<le> a @ [j]) = (i \<le> (j::nat))"
  by (induction a) auto

lemma not_contained_collapsed:
  assumes "range_collapsed r"
  shows "\<not> contained r x"
proof
  assume c: "contained r x"
  obtain p n where x: "x = (p, n)" by (cases x)
  from assms have e: "end_point r = start_point r"
    by (simp add: range_collapsed_def end_point_def start_point_def)
  from c x e have "startContainer r @ [startOffset r] < p @ [0]"
    and "p @ [node_length n] < startContainer r @ [startOffset r]"
    by (simp_all add: contained_def position_After position_Before start_point_def)
  then have "p @ [node_length n] < p @ [0]" by (rule less_trans [rotated])
  then show False by (simp add: snoc_less_snoc)
qed

lemma contained_text_collapsed:
  "range_collapsed r \<Longrightarrow> contained_text r xs = []"
  by (induction r xs rule: contained_text.induct) (simp_all add: not_contained_collapsed)

lemma toString_collapsed: "range_collapsed r \<Longrightarrow> toString t r = []"
  by (auto simp: toString_def contained_text_collapsed range_collapsed_def split: option.splits)

subsection \<open>The walk reads only the two offsets of the snapshot\<close>

lemma checkStart_cong:
  "start s1 = start s2 \<Longrightarrow> checkStart pf t s1 p k st = checkStart pf t s2 p k st"
  by (simp add: checkStart_def)

lemma checkEnd_cong:
  "end' s1 = end' s2 \<Longrightarrow> checkEnd pf t s1 p k st = checkEnd pf t s2 p k st"
  by (simp add: checkEnd_def)

lemma visitText_cong:
  "start s1 = start s2 \<Longrightarrow> end' s1 = end' s2 \<Longrightarrow> visitText pf t s1 p n st = visitText pf t s2 p n st"
  unfolding visitText_def Let_def
  by (simp only: checkStart_cong [of s1 s2] checkEnd_cong [of s1 s2])

lemma loopBody_cong:
  "start s1 = start s2 \<Longrightarrow> end' s1 = end' s2 \<Longrightarrow> loopBody pf t s1 st = loopBody pf t s2 st"
  unfolding loopBody_def by (simp only: visitText_cong [of s1 s2])

declare walk.simps [simp del]

lemma walk_done: "stop st \<or> node st = None \<Longrightarrow> walk pf t s st = Inr st"
  by (subst walk.simps) auto

lemma walk_step:
  "\<not> stop st \<Longrightarrow> node st \<noteq> None \<Longrightarrow>
   walk pf t s st = (case loopBody pf t s st of Inl e \<Rightarrow> Inl e | Inr st' \<Rightarrow> walk pf t s st')"
  by (subst walk.simps) auto

lemma walk_cong:
  "start s1 = start s2 \<Longrightarrow> end' s1 = end' s2 \<Longrightarrow> walk pf t s1 st = walk pf t s2 st"
proof (induction pf t s1 st rule: walk.induct)
  case (1 pf t s1 st)
  note eq = loopBody_cong [OF "1.prems", of pf t st]
  show ?case
  proof (cases "\<not> stop st \<and> node st \<noteq> None")
    case True
    show ?thesis
    proof (cases "loopBody pf t s1 st")
      case (Inl e)
      moreover from Inl eq have "loopBody pf t s2 st = Inl e" by simp
      ultimately show ?thesis using True by (simp add: walk_step)
    next
      case (Inr st')
      moreover from Inr eq have "loopBody pf t s2 st = Inr st'" by simp
      moreover from True Inr "1.prems" have "walk pf t s1 st' = walk pf t s2 st'"
        by (intro "1.IH") simp_all
      ultimately show ?thesis using True by (simp add: walk_step)
    qed
  next
    case False
    then have "stop st \<or> node st = None" by auto
    then show ?thesis by (simp only: walk_done)
  qed
qed

lemma restoreRange_cong:
  "start s1 = start s2 \<Longrightarrow> end' s1 = end' s2 \<Longrightarrow> restoreRange pf t rp s1 = restoreRange pf t rp s2"
  unfolding restoreRange_def by (simp only: walk_cong [of s1 s2])

subsection \<open>The walk with its stack is a pass over the nodes in tree order\<close>

lemma flat_simps [simp]:
  "flat [] = []" "flat (x # xs) = tree_order (fst x) (snd x) @ flat xs"
  "flat (xs @ ys) = flat xs @ flat ys"
  by (simp_all add: flat_def)

lemma flat_child_refs: "flat (child_refs p i cs) = tree_order_list p i cs"
  by (induction cs arbitrary: i) simp_all

lemma rev_last_butlast: "xs \<noteq> [] \<Longrightarrow> rev xs = last xs # rev (butlast xs)"
  by (cases xs rule: rev_cases) simp_all

lemma worklist_pop: "worklist (pop st) = flat (rev (nodeStack st))"
proof (cases "nodeStack st = []")
  case True
  then show ?thesis by (simp add: worklist_def pop_def)
next
  case False
  have "flat (rev (nodeStack st)) = flat (last (nodeStack st) # rev (butlast (nodeStack st)))"
    by (subst rev_last_butlast [OF False]) (rule refl)
  with False show ?thesis by (simp add: worklist_def pop_def)
qed

lemma clear_pop [simp]: "clear (pop st) = clear st"
  by (simp add: clear_def pop_def)

lemma stop_clear [simp]: "stop (clear st) = stop st"
  by (simp add: clear_def)

lemma process_stop: "stop st \<Longrightarrow> process pf t s xs st = Inr st"
  by (cases xs) simp_all

lemma checkStart_clear:
  "checkStart pf t s p k (clear st) = map_sum id clear (checkStart pf t s p k st)"
  by (simp add: checkStart_def clear_def bind_def split: sum.splits)

lemma checkEnd_clear:
  "checkEnd pf t s p k (clear st) = map_sum id clear (checkEnd pf t s p k st)"
  by (simp add: checkEnd_def clear_def bind_def split: sum.splits)

lemma charIndex_clear [simp]: "charIndex (clear st) = charIndex st"
  by (simp add: clear_def)

lemma visitText_clear:
  "visitText pf t s p n (clear st) = map_sum id clear (visitText pf t s p n st)"
proof -
  have c: "\<And>st k. clear (st\<lparr>charIndex := k\<rparr>) = (clear st)\<lparr>charIndex := k\<rparr>"
    by (simp add: clear_def)
  show ?thesis
    by (simp add: visitText_def Let_def checkStart_clear bind_def checkEnd_clear c split: sum.splits)
qed

lemma visit_clear:
  "visit pf t s x (clear st) = map_sum id clear (visit pf t s x st)"
proof -
  have c: "\<And>st v. clear (st\<lparr>visited := v\<rparr>) = (clear st)\<lparr>visited := v\<rparr>"
    "\<And>st. visited (clear st) = visited st"
    by (simp_all add: clear_def)
  obtain p n where x: "x = (p, n)" by (cases x)
  show ?thesis unfolding x
    by (cases n) (simp_all add: c visitText_clear [symmetric])
qed

lemma walk_process:
  "map_sum id clear (walk pf t s st) = process pf t s (worklist st) (clear st)"
proof (induction pf t s st rule: walk.induct)
  case (1 pf t s st)
  show ?case
  proof (cases "stop st")
    case True
    then show ?thesis by (simp add: walk_done process_stop)
  next
    case ns: False
    show ?thesis
    proof (cases "node st")
      case None
      then show ?thesis by (simp add: walk_done worklist_def)
    next
      case (Some x)
      obtain p n where x: "x = (p, n)" by (cases x)
      note nd = Some [unfolded x]
      from ns nd have step: "walk pf t s st =
        (case loopBody pf t s st of Inl e \<Rightarrow> Inl e | Inr st' \<Rightarrow> walk pf t s st')"
        by (simp add: walk_step)
      from ns nd have c: "\<not> stop st \<and> node st \<noteq> None" by simp
      note IH = "1.IH" [OF c]
      have wl: "worklist st = tree_order p n @ flat (rev (nodeStack st))"
        using nd by (simp add: worklist_def)
      show ?thesis
      proof (cases n)
        case (Comment d)
        with nd have lb: "loopBody pf t s st = Inr (pop st)" by (simp add: loopBody_Comment)
        from IH [OF lb] show ?thesis
          using ns by (simp add: step lb wl Comment worklist_pop)
      next
        case (Element cs)
        define st1 where "st1 = st\<lparr>visited := visited st @ [p],
          nodeStack := nodeStack st @ rev (child_refs p 0 cs)\<rparr>"
        from nd Element ns have lb: "loopBody pf t s st = Inr (pop st1)"
          by (simp add: loopBody_Element st1_def)
        have c1: "clear st1 = (clear st)\<lparr>visited := visited (clear st) @ [p]\<rparr>"
          by (simp add: st1_def clear_def)
        have w1: "worklist (pop st1) = tree_order_list p 0 cs @ flat (rev (nodeStack st))"
          by (simp add: worklist_pop st1_def flat_child_refs)
        from IH [OF lb] show ?thesis
          using ns by (simp add: step lb wl Element w1 c1)
      next
        case (Text d)
        let ?v = "visitText pf t s p (Text d) (st\<lparr>visited := visited st @ [p]\<rparr>)"
        have lb: "loopBody pf t s st = bind ?v (\<lambda>st1. Inr (if \<not> stop st1 then pop st1 else st1))"
          using nd Text by (simp add: loopBody_Text)
        have vc: "visitText pf t s p (Text d) ((clear st)\<lparr>visited := visited (clear st) @ [p]\<rparr>) =
          map_sum id clear ?v"
          using visit_clear [of pf t s "(p, Text d)" st] by simp
        show ?thesis
        proof (cases ?v)
          case (Inl e)
          then show ?thesis using ns by (simp add: step lb bind_def wl Text vc)
        next
          case (Inr st1)
          from visitText_keeps [OF Inr] have k: "nodeStack st1 = nodeStack st" by simp
          show ?thesis
          proof (cases "stop st1")
            case True
            then show ?thesis using ns Inr
              by (simp add: step lb bind_def wl Text vc walk_done process_stop)
          next
            case False
            with Inr have lb': "loopBody pf t s st = Inr (pop st1)" by (simp add: lb bind_def)
            from IH [OF lb'] show ?thesis using ns Inr False
              by (simp add: step lb' wl Text vc worklist_pop k)
          qed
        qed
      qed
    qed
  qed
qed

subsection \<open>The length of a range's string\<close>

text \<open>
  The string of a valid range has as many characters as lie between its two points:
  \<open>toString_length\<close>.
\<close>

lemma valid_point_Nil [simp]: "valid_point n ([], k) = (k \<le> node_length n)"
  by (simp add: valid_point_def)

lemma valid_point_Cons [simp]:
  "valid_point (Element cs) (j # p, k) = (j < length cs \<and> valid_point (cs ! j) (p, k))"
  "valid_point (Text d) (j # p, k) = False"
  "valid_point (Comment d) (j # p, k) = False"
  by (simp_all add: valid_point_def split: option.splits)

lemma text_sum_append [simp]: "text_sum P (xs @ ys) = text_sum P xs + text_sum P ys"
  by (induction xs) simp_all

lemma text_sum_cong:
  "(\<And>x n. (x, n) \<in> set xs \<Longrightarrow> P x (length (own_text n)) = Q x (length (own_text n))) \<Longrightarrow>
   text_sum P xs = text_sum Q xs"
  by (induction xs) auto

lemma text_sum_all:
  "text_sum (\<lambda>x l. True) (tree_order q n) = length (text_of n)"
  "text_sum (\<lambda>x l. True) (tree_order_list q i cs) = length (concat (map text_of cs))"
  by (induction q n and q i cs rule: tree_order_tree_order_list.induct) simp_all

lemma text_sum_none [simp]: "text_sum (\<lambda>x l. False) xs = 0"
  by (induction xs) simp_all

lemma tree_order_list_append:
  "tree_order_list q i (as @ bs) = tree_order_list q i as @ tree_order_list q (i + length as) bs"
  by (induction as arbitrary: i) simp_all

lemma tree_order_entries:
  "(x, m) \<in> set (tree_order q n) \<longrightarrow> (\<exists>x'. x = q @ x' \<and> node_at n x' = Some m)"
  "(x, m) \<in> set (tree_order_list q i cs) \<longrightarrow>
     (\<exists>j x'. x = q @ (i + j) # x' \<and> j < length cs \<and> node_at (cs ! j) x' = Some m)"
proof (induction q n and q i cs arbitrary: x m and x m rule: tree_order_tree_order_list.induct)
  case (1 p cs)
  show ?case
  proof
    assume "(x, m) \<in> set (tree_order p (Element cs))"
    then consider "x = p" "m = Element cs" | "(x, m) \<in> set (tree_order_list p 0 cs)" by auto
    then show "\<exists>x'. x = p @ x' \<and> node_at (Element cs) x' = Some m"
    proof cases
      case 1
      then show ?thesis by (intro exI [of _ "[]"]) simp
    next
      case 2
      with "1.IH" [of x m] obtain j x' where "x = p @ j # x'" "j < length cs" "node_at (cs ! j) x' = Some m"
        by fastforce
      then show ?thesis by (intro exI [of _ "j # x'"]) simp
    qed
  qed
next
  case (5 p i c cs)
  show ?case
  proof
    assume "(x, m) \<in> set (tree_order_list p i (c # cs))"
    then consider "(x, m) \<in> set (tree_order (p @ [i]) c)" | "(x, m) \<in> set (tree_order_list p (Suc i) cs)"
      by auto
    then show "\<exists>j x'. x = p @ (i + j) # x' \<and> j < length (c # cs) \<and> node_at ((c # cs) ! j) x' = Some m"
    proof cases
      case 1
      with "5.IH"(1) obtain x' where "x = (p @ [i]) @ x'" "node_at c x' = Some m" by blast
      then show ?thesis by (intro exI [of _ 0] exI [of _ x']) simp
    next
      case 2
      with "5.IH"(2) obtain j x' where "x = p @ (Suc i + j) # x'" "j < length cs"
        "node_at (cs ! j) x' = Some m" by blast
      then show ?thesis by (intro exI [of _ "Suc j"] exI [of _ x']) simp
    qed
  qed
qed simp_all

lemma tree_order_entry:
  "(x, m) \<in> set (tree_order q n) \<Longrightarrow> \<exists>x'. x = q @ x' \<and> node_at n x' = Some m"
  using tree_order_entries(1) by blast

lemma tree_order_list_entry:
  "(x, m) \<in> set (tree_order_list q i cs) \<Longrightarrow>
   \<exists>j x'. x = q @ (i + j) # x' \<and> j < length cs \<and> node_at (cs ! j) x' = Some m"
  using tree_order_entries(2) by blast

lemma less_snoc_Cons: "((i # x) @ [l] < [k]) = (i < (k::nat))"
  by simp

lemma text_sum_children_below:
  assumes "\<And>j x' l. j < length cs \<Longrightarrow> P (q @ (i + j) # x') l"
  shows "text_sum P (tree_order_list q i cs) = length (concat (map text_of cs))"
proof -
  have "text_sum P (tree_order_list q i cs) = text_sum (\<lambda>x l. True) (tree_order_list q i cs)"
    by (rule text_sum_cong) (use assms in \<open>auto dest!: tree_order_list_entry\<close>)
  then show ?thesis by (simp add: text_sum_all)
qed

lemma text_sum_children_above:
  assumes "\<And>j x' l. j < length cs \<Longrightarrow> \<not> P (q @ (i + j) # x') l"
  shows "text_sum P (tree_order_list q i cs) = 0"
proof -
  have "text_sum P (tree_order_list q i cs) = text_sum (\<lambda>x l. False) (tree_order_list q i cs)"
    by (rule text_sum_cong) (use assms in \<open>auto dest!: tree_order_list_entry\<close>)
  then show ?thesis by simp
qed

lemma text_sum_before:
  "valid_point n (p, k) \<Longrightarrow>
   text_sum (\<lambda>x l. x @ [l] < q @ p @ [k]) (tree_order q n) +
     (case text_data (node_at n p) of Some d \<Rightarrow> k | None \<Rightarrow> 0) = text_before n p k"
proof (induction p arbitrary: n q)
  case Nil
  show ?case
  proof (cases n)
    case (Text d)
    with Nil show ?thesis by (simp add: append_less_append)
  next
    case (Comment d)
    then show ?thesis by simp
  next
    case (Element cs)
    with Nil have k: "k \<le> length cs" by simp
    let ?P = "\<lambda>x l. x @ [l] < q @ [k]"
    have cs: "cs = take k cs @ drop k cs" by simp
    have "text_sum ?P (tree_order_list q 0 cs) =
      text_sum ?P (tree_order_list q 0 (take k cs)) +
      text_sum ?P (tree_order_list q (0 + length (take k cs)) (drop k cs))"
      by (subst cs, subst tree_order_list_append) simp
    also have "text_sum ?P (tree_order_list q 0 (take k cs)) = length (concat (map text_of (take k cs)))"
      by (rule text_sum_children_below) (simp add: append_less_append)
    also have "text_sum ?P (tree_order_list q (0 + length (take k cs)) (drop k cs)) = 0"
      using k by (intro text_sum_children_above) (simp add: append_less_append min_def)
    finally show ?thesis using Element by simp
  qed
next
  case (Cons j p)
  from Cons.prems obtain cs where n: "n = Element cs" and j: "j < length cs"
    and v: "valid_point (cs ! j) (p, k)"
    by (cases n) auto
  let ?P = "\<lambda>x l. x @ [l] < q @ (j # p) @ [k]"
  have cs: "cs = take j cs @ cs ! j # drop (Suc j) cs" using j by (simp add: id_take_nth_drop)
  have lt: "length (take j cs) = j" using j by simp
  have "tree_order_list q 0 cs =
    tree_order_list q 0 (take j cs) @ tree_order (q @ [j]) (cs ! j) @
    tree_order_list q (Suc j) (drop (Suc j) cs)"
    using j by (subst cs, subst tree_order_list_append) (simp add: min_absorb2)
  then have "text_sum ?P (tree_order_list q 0 cs) =
    text_sum ?P (tree_order_list q 0 (take j cs)) + text_sum ?P (tree_order (q @ [j]) (cs ! j)) +
    text_sum ?P (tree_order_list q (Suc j) (drop (Suc j) cs))"
    by simp
  also have "text_sum ?P (tree_order_list q 0 (take j cs)) = length (concat (map text_of (take j cs)))"
    using j by (intro text_sum_children_below) (simp add: append_less_append)
  also have "text_sum ?P (tree_order_list q (Suc j) (drop (Suc j) cs)) = 0"
    by (intro text_sum_children_above) (simp add: append_less_append)
  also have "text_sum ?P (tree_order (q @ [j]) (cs ! j)) =
    text_sum (\<lambda>x l. x @ [l] < (q @ [j]) @ p @ [k]) (tree_order (q @ [j]) (cs ! j))"
    by simp
  finally have "text_sum ?P (tree_order_list q 0 cs) +
     (case text_data (node_at (cs ! j) p) of Some d \<Rightarrow> k | None \<Rightarrow> 0) =
     length (concat (map text_of (take j cs))) + text_before (cs ! j) p k"
    using Cons.IH [OF v, of "q @ [j]"] by simp
  with n j show ?case by simp
qed

lemma text_before_text:
  "node_at n p = Some (Text d) \<Longrightarrow> k \<le> length d \<Longrightarrow> text_before n p k = text_before n p 0 + k"
proof (induction p arbitrary: n)
  case Nil
  then show ?case by simp
next
  case (Cons j p)
  then show ?case by (cases n) (auto split: if_splits)
qed

lemma node_at_append:
  "node_at n (p @ q) = (case node_at n p of None \<Rightarrow> None | Some m \<Rightarrow> node_at m q)"
proof (induction p arbitrary: n)
  case Nil
  then show ?case by simp
next
  case (Cons j p)
  then show ?case by (cases n) simp_all
qed

lemma text_is_leaf:
  assumes "node_at t x = Some (Text d)" "node_at t y = Some m" "prefix x y"
  shows "y = x"
proof -
  from assms(3) obtain r where y: "y = x @ r" by (auto simp: prefix_def)
  with assms(1,2) have "node_at (Text d) r = Some m" by (simp add: node_at_append)
  then have "r = []" by (cases r) simp_all
  with y show ?thesis by simp
qed

lemma snoc_less_independent:
  "\<not> prefix x p \<Longrightarrow> (x @ [l] < p @ [k]) = (x @ [l'] < p @ [k :: nat])"
proof (induction x arbitrary: p)
  case Nil
  then show ?case by simp
next
  case (Cons a x)
  then show ?case by (cases p) auto
qed

lemma snoc_eq_snoc: "(x @ [l] = p @ [k]) = (x = p \<and> l = k)"
  by simp

lemma text_sum_at:
  "text_sum (\<lambda>x l. x = q @ p) (tree_order q n) =
     (case node_at n p of None \<Rightarrow> 0 | Some m \<Rightarrow> length (own_text m))"
proof (induction p arbitrary: n q)
  case Nil
  show ?case
  proof (cases n)
    case (Element cs)
    have "text_sum (\<lambda>x l. x = q) (tree_order_list q 0 cs) = 0"
      by (rule text_sum_children_above) simp
    with Element show ?thesis by simp
  qed simp_all
next
  case (Cons j p)
  show ?case
  proof (cases n)
    case (Element cs)
    let ?P = "\<lambda>x (l::nat). x = q @ j # p"
    show ?thesis
    proof (cases "j < length cs")
      case True
      have cs: "cs = take j cs @ cs ! j # drop (Suc j) cs" using True by (simp add: id_take_nth_drop)
      have "tree_order_list q 0 cs =
        tree_order_list q 0 (take j cs) @ tree_order (q @ [j]) (cs ! j) @
        tree_order_list q (Suc j) (drop (Suc j) cs)"
        using True by (subst cs, subst tree_order_list_append) (simp add: min_absorb2)
      then have "text_sum ?P (tree_order_list q 0 cs) =
        text_sum ?P (tree_order_list q 0 (take j cs)) + text_sum ?P (tree_order (q @ [j]) (cs ! j)) +
        text_sum ?P (tree_order_list q (Suc j) (drop (Suc j) cs))"
        by simp
      also have "text_sum ?P (tree_order_list q 0 (take j cs)) = 0"
        using True by (intro text_sum_children_above) simp
      also have "text_sum ?P (tree_order_list q (Suc j) (drop (Suc j) cs)) = 0"
        by (intro text_sum_children_above) simp
      also have "text_sum ?P (tree_order (q @ [j]) (cs ! j)) =
        text_sum (\<lambda>x l. x = (q @ [j]) @ p) (tree_order (q @ [j]) (cs ! j))"
        by simp
      finally show ?thesis using Cons.IH [of "q @ [j]" "cs ! j"] Element True by simp
    next
      case False
      have "text_sum ?P (tree_order_list q 0 cs) = 0"
        using False by (intro text_sum_children_above) simp
      with Element False show ?thesis by simp
    qed
  qed simp_all
qed

lemma contained_text_length:
  "length (contained_text r xs) =
     text_sum (\<lambda>x l. startContainer r @ [startOffset r] < x @ [0] \<and>
                      x @ [l] < endContainer r @ [endOffset r]) xs"
  by (induction r xs rule: contained_text.induct)
     (simp_all add: contained_def position_After position_Before start_point_def end_point_def)

lemma text_sum_split3:
  assumes "\<And>x n. (x, n) \<in> set xs \<Longrightarrow> own_text n \<noteq> [] \<Longrightarrow>
    (M x (length (own_text n)) \<longleftrightarrow> A x (length (own_text n)) \<or> I x (length (own_text n)) \<or> C x (length (own_text n))) \<and>
    \<not> (A x (length (own_text n)) \<and> I x (length (own_text n))) \<and>
    \<not> (A x (length (own_text n)) \<and> C x (length (own_text n))) \<and>
    \<not> (I x (length (own_text n)) \<and> C x (length (own_text n)))"
  shows "text_sum M xs = text_sum A xs + text_sum I xs + text_sum C xs"
  using assms
proof (induction xs)
  case Nil
  then show ?case by simp
next
  case (Cons y ys)
  obtain x n where y: "y = (x, n)" by (cases y)
  have IH: "text_sum M ys = text_sum A ys + text_sum I ys + text_sum C ys"
    by (rule Cons.IH) (use Cons.prems in auto)
  show ?case
  proof (cases "own_text n = []")
    case True
    with IH y show ?thesis by simp
  next
    case False
    from Cons.prems [of x n] y False IH show ?thesis by auto
  qed
qed

lemma valid_point_node: "valid_point t (p, k) \<Longrightarrow> \<exists>n. node_at t p = Some n \<and> k \<le> node_length n"
  by (auto simp: valid_point_def split: option.splits)

lemma toString_length:
  assumes "valid_range t r"
  shows "length (toString t r) + text_before t (startContainer r) (startOffset r) =
         text_before t (endContainer r) (endOffset r)"
proof -
  define sc so ec eo where "sc = startContainer r" and "so = startOffset r"
    and "ec = endContainer r" and "eo = endOffset r"
  note d = sc_def so_def ec_def eo_def
  from assms have vs: "valid_point t (sc, so)" and ve: "valid_point t (ec, eo)"
    and le: "sc @ [so] \<le> ec @ [eo]"
    by (auto simp: valid_range_def start_point_def end_point_def d position_After)
  from valid_point_node [OF vs] obtain ns where ns: "node_at t sc = Some ns" "so \<le> node_length ns"
    by blast
  from valid_point_node [OF ve] obtain ne where ne: "node_at t ec = Some ne" "eo \<le> node_length ne"
    by blast
  let ?xs = "tree_order [] t"
  let ?M = "\<lambda>x l. x @ [l] < ec @ [eo]"
  let ?A = "\<lambda>x l. x @ [l] < sc @ [so]"
  let ?I = "\<lambda>x (l::nat). x = sc \<and> sc \<noteq> ec"
  let ?C = "\<lambda>x l. sc @ [so] < x @ [0] \<and> x @ [l] < ec @ [eo]"
  have bS: "text_sum ?A ?xs + (case text_data (Some ns) of Some d \<Rightarrow> so | None \<Rightarrow> 0) =
    text_before t sc so"
    using text_sum_before [OF vs, of "[]"] ns by simp
  have bE: "text_sum ?M ?xs + (case text_data (Some ne) of Some d \<Rightarrow> eo | None \<Rightarrow> 0) =
    text_before t ec eo"
    using text_sum_before [OF ve, of "[]"] ne by simp
  have split: "text_sum ?M ?xs = text_sum ?A ?xs + text_sum ?I ?xs + text_sum ?C ?xs"
  proof (rule text_sum_split3)
    fix x n
    assume "(x, n) \<in> set ?xs" and nz: "own_text n \<noteq> []"
    then have nx: "node_at t x = Some n" by (auto dest: tree_order_entry)
    from nz obtain dx where n: "n = Text dx" by (cases n) auto
    let ?l = "length (own_text n)"
    show "(?M x ?l \<longleftrightarrow> ?A x ?l \<or> ?I x ?l \<or> ?C x ?l) \<and>
      \<not> (?A x ?l \<and> ?I x ?l) \<and> \<not> (?A x ?l \<and> ?C x ?l) \<and> \<not> (?I x ?l \<and> ?C x ?l)"
    proof (cases "x = sc")
      case True
      with ns nx n have sol: "so \<le> ?l" by simp
      show ?thesis
      proof (cases "sc = ec")
        case True
        with \<open>x = sc\<close> ne nx n have "eo \<le> ?l" by simp
        with sol True \<open>x = sc\<close> show ?thesis by (simp add: snoc_less_snoc)
      next
        case False
        with text_is_leaf [OF nx [unfolded n] ne(1)] True have np: "\<not> prefix x ec" by auto
        from le False have "sc @ [so] < ec @ [eo]" by (simp add: order_less_le)
        with snoc_less_independent [OF np, of ?l eo so] True have "?M x ?l" by simp
        with True False sol show ?thesis by (simp add: snoc_less_snoc)
      qed
    next
      case False
      with text_is_leaf [OF nx [unfolded n] ns(1)] have np: "\<not> prefix x sc" by auto
      have ind: "?A x ?l = (x @ [0] < sc @ [so])"
        by (rule snoc_less_independent [OF np])
      have neq: "x @ [0] \<noteq> sc @ [so]" using False by simp
      have "?A x ?l \<Longrightarrow> ?M x ?l" using le by (auto elim: order_less_le_trans)
      with False ind neq show ?thesis by (auto simp: not_less_iff_gr_or_eq)
    qed
  qed
  have isum: "text_sum ?I ?xs = (if sc \<noteq> ec then length (own_text ns) else 0)"
  proof (cases "sc = ec")
    case True
    then show ?thesis by simp
  next
    case False
    then have "text_sum ?I ?xs = text_sum (\<lambda>x l. x = [] @ sc) ?xs" by simp
    also have "\<dots> = length (own_text ns)" by (simp only: text_sum_at ns option.case)
    finally show ?thesis using False by simp
  qed
  have csum: "length (contained_text r ?xs) = text_sum ?C ?xs"
    by (simp add: contained_text_length d)
  define endpart where
    "endpart = (case text_data (node_at t ec) of Some e \<Rightarrow> take eo e | None \<Rightarrow> [])"
  have endlen: "length endpart = (case text_data (Some ne) of Some d \<Rightarrow> eo | None \<Rightarrow> 0)"
    using ne by (cases ne) (simp_all add: endpart_def min_absorb2)
  show ?thesis
  proof (cases "text_data (Some ns)")
    case None
    then have "own_text ns = []" by (cases ns) simp_all
    with isum have i0: "text_sum ?I ?xs = 0" by simp
    from None ns have "toString t r = contained_text r ?xs @ endpart"
      by (simp add: toString_def d endpart_def cong: option.case_cong)
    then have "length (toString t r) = text_sum ?C ?xs + length endpart"
      by (simp add: csum)
    moreover from bS None have "text_sum ?A ?xs = text_before t sc so" by simp
    ultimately show ?thesis using split i0 bE endlen by (simp add: d)
  next
    case (Some ds)
    then have nst: "ns = Text ds" by (cases ns) simp_all
    show ?thesis
    proof (cases "sc = ec")
      case True
      with ns ne nst have net: "ne = Text ds" by simp
      from True ns nst have "toString t r = take (eo - so) (drop so ds)"
        by (simp add: toString_def d)
      moreover from le True have "so \<le> eo" by (simp add: snoc_le_snoc)
      moreover from ne net have "eo \<le> length ds" by simp
      ultimately have "length (toString t r) + so = eo" by simp
      moreover have "text_before t sc so = text_before t sc 0 + so"
        using ns nst by (intro text_before_text) simp_all
      moreover have "text_before t ec eo = text_before t sc 0 + eo"
        using text_before_text [of t sc ds eo] ns nst True \<open>eo \<le> length ds\<close> by simp
      ultimately show ?thesis by (simp add: d)
    next
      case False
      with isum nst have i1: "text_sum ?I ?xs = length ds" by simp
      from False ns nst have "toString t r = drop so ds @ contained_text r ?xs @ endpart"
        by (simp add: toString_def d endpart_def cong: option.case_cong)
      then have "length (toString t r) = (length ds - so) + text_sum ?C ?xs + length endpart"
        by (simp add: csum)
      moreover from bS nst have "text_sum ?A ?xs + so = text_before t sc so" by simp
      moreover from ns nst have "so \<le> length ds" by simp
      ultimately show ?thesis using split i1 bE endlen by (simp add: d)
    qed
  qed
qed

subsection \<open>What exportSelection returns for a selection inside the root\<close>

lemma text_before_Nil_0 [simp]: "text_before n [] 0 = 0"
  by (cases n) simp_all

lemma text_before_shift:
  "node_at t rp = Some root \<Longrightarrow>
   text_before t (rp @ q) k = text_before t rp 0 + text_before root q k"
proof (induction rp arbitrary: t)
  case Nil
  then show ?case by simp
next
  case (Cons i rp)
  then show ?case by (cases t) (auto split: if_splits)
qed

lemma concat_take_le:
  "length (concat (map f (take k cs))) \<le> length (concat (map f cs))"
proof -
  have "concat (map f cs) = concat (map f (take k cs)) @ concat (map f (drop k cs))"
    by (metis append_take_drop_id concat_append map_append)
  then show ?thesis by simp
qed

lemma concat_take_nth_le:
  assumes "j < length cs"
  shows "length (concat (map f (take j cs))) + length (f (cs ! j)) \<le> length (concat (map f cs))"
proof -
  have "take (Suc j) cs = take j cs @ [cs ! j]" using assms by (simp add: take_Suc_conv_app_nth)
  then have "length (concat (map f (take (Suc j) cs))) =
    length (concat (map f (take j cs))) + length (f (cs ! j))" by simp
  with concat_take_le [of f "Suc j" cs] show ?thesis by simp
qed

lemma text_before_le:
  "valid_point n (p, k) \<Longrightarrow> text_before n p k \<le> length (text_of n)"
proof (induction p arbitrary: n)
  case Nil
  then show ?case by (cases n) (simp_all add: concat_take_le)
next
  case (Cons j p)
  then obtain cs where n: "n = Element cs" and j: "j < length cs"
    and v: "valid_point (cs ! j) (p, k)" by (cases n) auto
  from Cons.IH [OF v] concat_take_nth_le [OF j, of text_of] n show ?case by simp
qed

lemma valid_point_append:
  "node_at t rp = Some root \<Longrightarrow> valid_point t (rp @ q, k) = valid_point root (q, k)"
  by (simp add: valid_point_def node_at_append split: option.splits)

lemma valid_range_monotone:
  assumes "valid_range t r"
  shows "text_before t (startContainer r) (startOffset r) \<le>
         text_before t (endContainer r) (endOffset r)"
  using toString_length [OF assms] by simp

lemma Nil_le_snoc: "[0] \<le> q @ [k :: nat]"
  by (cases q) auto

lemma export_within_root:
  assumes sel: "selection doc = Some (r # rs)"
    and root: "node_at (tree doc) rp = Some root"
    and vr: "valid_range (tree doc) r"
    and sc: "startContainer r = rp @ qs" and ec: "endContainer r = rp @ qe"
  shows "exportSelection conforming doc (Some rp) =
    Inr (Some \<lparr>start = int (text_before root qs (startOffset r)),
               end' = int (text_before root qe (endOffset r)),
               startContainer' = Some (startContainer r),
               endContainer' = Some (endContainer r),
               collapsed = range_collapsed r\<rparr>)"
proof -
  let ?t = "tree doc"
  define pre where "pre = \<lparr>startContainer = rp, startOffset = 0,
    endContainer = startContainer r, endOffset = startOffset r\<rparr>"
  from vr have vs: "valid_point ?t (startContainer r, startOffset r)"
    by (simp add: valid_range_def start_point_def)
  then obtain ns where ns: "node_at ?t (startContainer r) = Some ns" "startOffset r \<le> node_length ns"
    by (auto dest: valid_point_node)
  have s1: "selectNodeContents ?t (cloneRange r) rp =
    Inr \<lparr>startContainer = rp, startOffset = 0, endContainer = rp, endOffset = node_length root\<rparr>"
    using root by (simp add: selectNodeContents_def)
  have nb: "\<not> (rp @ qs) @ [startOffset r] < rp @ [0]"
    using Nil_le_snoc [of qs "startOffset r"] by (simp add: append_less_append not_less)
  have s2: "setEnd conforming ?t
    \<lparr>startContainer = rp, startOffset = 0, endContainer = rp, endOffset = node_length root\<rparr>
    (startContainer r) (startOffset r) = Inr pre"
    using ns nb by (simp add: setEnd_def conforming_def position_Before start_point_def sc pre_def)
  have vpre: "valid_range ?t pre"
    using vs root Nil_le_snoc [of qs "startOffset r"]
    by (simp add: valid_range_def pre_def start_point_def end_point_def position_After sc
        valid_point_def append_less_append not_less)
  from toString_length [OF vpre] text_before_shift [OF root, of qs "startOffset r"]
    text_before_shift [OF root, of "[]" 0]
  have l1: "length (toString ?t pre) = text_before root qs (startOffset r)"
    by (simp add: pre_def sc)
  from toString_length [OF vr] text_before_shift [OF root, of qs "startOffset r"]
    text_before_shift [OF root, of qe "endOffset r"]
  have l2: "length (toString ?t r) + text_before root qs (startOffset r) =
    text_before root qe (endOffset r)"
    by (simp add: sc ec)
  show ?thesis
    using l2 by (simp add: exportSelection_def getSelection_def sel s1 s2 bind_def l1 Let_def)
qed

subsection \<open>What the pass computes\<close>

lemma span_simps [simp]:
  "start_point (span a b) = a" "end_point (span a b) = b"
  "startContainer (span a b) = fst a" "startOffset (span a b) = snd a"
  "endContainer (span a b) = fst b" "endOffset (span a b) = snd b"
  by (simp_all add: span_def start_point_def end_point_def)

lemma setStart_collapsed:
  assumes "node_at t p = Some n" "off \<le> node_length n" "\<not> p @ [off] < fst b @ [snd b]"
  shows "setStart conforming t (span b b) p off = Inr (span (p, off) (p, off))"
proof (cases "fst b @ [snd b] < p @ [off]")
  case True
  with assms show ?thesis
    by (cases b) (simp add: setStart_def conforming_def position_After span_def end_point_def)
next
  case False
  with assms(3) have "p @ [off] = fst b @ [snd b]" by (simp add: not_less_iff_gr_or_eq)
  then have "b = (p, off)" by (cases b) simp
  with assms False show ?thesis
    by (simp add: setStart_def conforming_def position_After span_def end_point_def)
qed

lemma setEnd_after:
  assumes "node_at t p = Some n" "off \<le> node_length n" "\<not> p @ [off] < fst a @ [snd a]"
  shows "setEnd conforming t (span a b) p off = Inr (span a (p, off))"
  using assms by (cases a) (simp add: setEnd_def conforming_def position_Before span_def start_point_def)

lemma checkStart_miss:
  "foundStart st \<or> \<not> (int (charIndex st) \<le> start s \<and> start s \<le> int k) \<Longrightarrow>
   checkStart pf t s p k st = Inr st"
  by (auto simp: checkStart_def)

lemma checkEnd_miss:
  "\<not> foundStart st \<or> \<not> (int (charIndex st) \<le> end' s \<and> end' s \<le> int k) \<Longrightarrow>
   checkEnd pf t s p k st = Inr st"
  by (auto simp: checkEnd_def)

lemma checkStart_hit:
  assumes "\<not> foundStart st" "int (charIndex st) \<le> start s" "start s \<le> int (charIndex st + length d)"
    and "node_at t p = Some (Text d)" "range' st = span b b"
    and "\<not> p @ [nat (start s - int (charIndex st))] < fst b @ [snd b]"
  shows "checkStart conforming t s p (charIndex st + length d) st =
    Inr (st\<lparr>range' := span (p, nat (start s - int (charIndex st))) (p, nat (start s - int (charIndex st))),
            foundStart := True\<rparr>)"
proof -
  have "setStart conforming t (span b b) p (nat (start s - int (charIndex st))) =
    Inr (span (p, nat (start s - int (charIndex st))) (p, nat (start s - int (charIndex st))))"
    using assms by (intro setStart_collapsed [where n = "Text d"]) auto
  with assms show ?thesis by (simp add: checkStart_def bind_def)
qed

lemma checkEnd_hit:
  assumes "foundStart st" "int (charIndex st) \<le> end' s" "end' s \<le> int (charIndex st + length d)"
    and "node_at t p = Some (Text d)" "range' st = span a b"
    and "\<not> p @ [nat (end' s - int (charIndex st))] < fst a @ [snd a]"
  shows "checkEnd conforming t s p (charIndex st + length d) st =
    Inr (st\<lparr>range' := span a (p, nat (end' s - int (charIndex st))), stop := True\<rparr>)"
proof -
  have "setEnd conforming t (span a b) p (nat (end' s - int (charIndex st))) =
    Inr (span a (p, nat (end' s - int (charIndex st))))"
    using assms by (intro setEnd_after [where n = "Text d"]) auto
  with assms show ?thesis by (simp add: checkEnd_def bind_def)
qed

lemma visit_text_pass:
  assumes "foundStart st \<or> \<not> (int (charIndex st) \<le> start s \<and> start s \<le> int (charIndex st + length d))"
    and "\<not> foundStart st \<or> \<not> (int (charIndex st) \<le> end' s \<and> end' s \<le> int (charIndex st + length d))"
  shows "visit pf t s (p, Text d) st =
    Inr (st\<lparr>visited := visited st @ [p], charIndex := charIndex st + length d\<rparr>)"
proof -
  let ?st = "st\<lparr>visited := visited st @ [p]\<rparr>"
  have 1: "checkStart pf t s p (charIndex st + length d) ?st = Inr ?st"
    using assms(1) by (intro checkStart_miss) simp
  have 2: "checkEnd pf t s p (charIndex st + length d) ?st = Inr ?st"
    using assms(2) by (intro checkEnd_miss) simp
  show ?thesis by (simp add: visitText_def 1 2 bind_def)
qed

lemma visit_text_end:
  assumes "foundStart st" "int (charIndex st) \<le> end' s" "end' s \<le> int (charIndex st + length d)"
    and "node_at t p = Some (Text d)" "range' st = span a b"
    and "\<not> p @ [nat (end' s - int (charIndex st))] < fst a @ [snd a]"
  shows "visit conforming t s (p, Text d) st =
    Inr (st\<lparr>visited := visited st @ [p],
            range' := span a (p, nat (end' s - int (charIndex st))), stop := True,
            charIndex := charIndex st + length d\<rparr>)"
proof -
  let ?st = "st\<lparr>visited := visited st @ [p]\<rparr>"
  have 1: "checkStart conforming t s p (charIndex st + length d) ?st = Inr ?st"
    using assms(1) by (intro checkStart_miss) simp
  have 2: "checkEnd conforming t s p (charIndex ?st + length d) ?st =
    Inr (?st\<lparr>range' := span a (p, nat (end' s - int (charIndex ?st))), stop := True\<rparr>)"
    using assms by (intro checkEnd_hit) simp_all
  show ?thesis using 2 by (simp add: visitText_def 1 bind_def)
qed

lemma visit_text_start:
  assumes "\<not> foundStart st" "int (charIndex st) \<le> start s" "start s \<le> int (charIndex st + length d)"
    and "\<not> end' s \<le> int (charIndex st + length d)"
    and "node_at t p = Some (Text d)" "range' st = span b b"
    and "\<not> p @ [nat (start s - int (charIndex st))] < fst b @ [snd b]"
  shows "visit conforming t s (p, Text d) st =
    Inr (st\<lparr>visited := visited st @ [p],
            range' := span (p, nat (start s - int (charIndex st))) (p, nat (start s - int (charIndex st))),
            foundStart := True, charIndex := charIndex st + length d\<rparr>)"
proof -
  let ?st = "st\<lparr>visited := visited st @ [p]\<rparr>"
  let ?A = "(p, nat (start s - int (charIndex st)))"
  have 1: "checkStart conforming t s p (charIndex ?st + length d) ?st =
    Inr (?st\<lparr>range' := span (p, nat (start s - int (charIndex ?st))) (p, nat (start s - int (charIndex ?st))),
      foundStart := True\<rparr>)"
    using assms by (intro checkStart_hit) simp_all
  have 2: "checkEnd conforming t s p (charIndex st + length d)
      (?st\<lparr>range' := span ?A ?A, foundStart := True\<rparr>) =
    Inr (?st\<lparr>range' := span ?A ?A, foundStart := True\<rparr>)"
    using assms(4) by (intro checkEnd_miss) simp
  show ?thesis using 1 2 by (simp add: visitText_def bind_def)
qed

lemma visit_text_both:
  assumes "\<not> foundStart st" "int (charIndex st) \<le> start s" "start s \<le> end' s"
    and "end' s \<le> int (charIndex st + length d)"
    and "node_at t p = Some (Text d)" "range' st = span b b"
    and "\<not> p @ [nat (start s - int (charIndex st))] < fst b @ [snd b]"
  shows "visit conforming t s (p, Text d) st =
    Inr (st\<lparr>visited := visited st @ [p],
            range' := span (p, nat (start s - int (charIndex st))) (p, nat (end' s - int (charIndex st))),
            foundStart := True, stop := True, charIndex := charIndex st + length d\<rparr>)"
proof -
  let ?st = "st\<lparr>visited := visited st @ [p]\<rparr>"
  let ?A = "(p, nat (start s - int (charIndex st)))"
  let ?st1 = "?st\<lparr>range' := span ?A ?A, foundStart := True\<rparr>"
  have 1: "checkStart conforming t s p (charIndex ?st + length d) ?st =
    Inr (?st\<lparr>range' := span (p, nat (start s - int (charIndex ?st))) (p, nat (start s - int (charIndex ?st))),
      foundStart := True\<rparr>)"
    using assms by (intro checkStart_hit) simp_all
  have 2: "checkEnd conforming t s p (charIndex ?st1 + length d) ?st1 =
    Inr (?st1\<lparr>range' := span ?A (p, nat (end' s - int (charIndex ?st1))), stop := True\<rparr>)"
    using assms by (intro checkEnd_hit) (simp_all add: snoc_less_snoc)
  show ?thesis using 1 2 by (simp add: visitText_def bind_def)
qed

lemma expected_end_simps:
  "expected_end A e c [] = (False, span A A)"
  "expected_end A e c ((p, Element cs) # xs) = expected_end A e c xs"
  "expected_end A e c ((p, Comment d) # xs) = expected_end A e c xs"
  "e \<le> int (c + length d) \<Longrightarrow>
     expected_end A e c ((p, Text d) # xs) = (True, span A (p, nat (e - int c)))"
  "\<not> e \<le> int (c + length d) \<Longrightarrow>
     expected_end A e c ((p, Text d) # xs) = expected_end A e (c + length d) xs"
  by (simp_all add: expected_end_def)

lemma expected_simps:
  "expected R b e c [] = (False, False, span R R)"
  "expected R b e c ((p, Element cs) # xs) = expected R b e c xs"
  "expected R b e c ((p, Comment d) # xs) = expected R b e c xs"
  "b \<le> int (c + length d) \<Longrightarrow>
     expected R b e c ((p, Text d) # xs) =
       (True, expected_end (p, nat (b - int c)) e c ((p, Text d) # xs))"
  "\<not> b \<le> int (c + length d) \<Longrightarrow> b \<le> e \<Longrightarrow>
     expected R b e c ((p, Text d) # xs) = expected R b e (c + length d) xs"
  by (simp_all add: expected_def expected_end_def split: option.splits)

lemma process_find_end:
  assumes "foundStart st" "\<not> stop st" "range' st = span A A" "int (charIndex st) \<le> end' s"
    and "\<forall>x n. (x, n) \<in> set xs \<longrightarrow> node_at t x = Some n"
    and "\<forall>x n k. (x, n) \<in> set xs \<longrightarrow> \<not> x @ [k] < fst A @ [snd A]"
  shows "\<exists>st'. process conforming t s xs st = Inr st' \<and> foundStart st' \<and>
     (stop st', range' st') = expected_end A (end' s) (charIndex st) xs"
  using assms
proof (induction xs arbitrary: st)
  case Nil
  then show ?case by (simp add: expected_end_simps)
next
  case (Cons y xs)
  obtain p n where y: "y = (p, n)" by (cases y)
  have IH: "\<And>st1. foundStart st1 \<Longrightarrow> \<not> stop st1 \<Longrightarrow> range' st1 = span A A \<Longrightarrow>
    int (charIndex st1) \<le> end' s \<Longrightarrow>
    \<exists>st'. process conforming t s xs st1 = Inr st' \<and> foundStart st' \<and>
     (stop st', range' st') = expected_end A (end' s) (charIndex st1) xs"
    by (rule Cons.IH) (use Cons.prems in auto)
  show ?case
  proof (cases n)
    case (Element cs)
    with IH [of "st\<lparr>visited := visited st @ [p]\<rparr>"] Cons.prems(1-4) y show ?thesis
      by (simp add: expected_end_simps)
  next
    case (Comment d)
    with IH [of st] Cons.prems(1-4) y show ?thesis by (simp add: expected_end_simps)
  next
    case (Text d)
    from Cons.prems(5) y Text have nd: "node_at t p = Some (Text d)" by simp
    from Cons.prems(6) y have np: "\<And>k. \<not> p @ [k] < fst A @ [snd A]" by simp
    show ?thesis
    proof (cases "end' s \<le> int (charIndex st + length d)")
      case True
      have "visit conforming t s (p, Text d) st =
        Inr (st\<lparr>visited := visited st @ [p],
            range' := span A (p, nat (end' s - int (charIndex st))), stop := True,
            charIndex := charIndex st + length d\<rparr>)"
        using Cons.prems(1,3,4) True nd np
        by (intro visit_text_end) simp_all
      with Cons.prems(1,2) True y Text show ?thesis
        by (simp add: process_stop expected_end_simps)
    next
      case False
      have v: "visit conforming t s (p, Text d) st =
        Inr (st\<lparr>visited := visited st @ [p], charIndex := charIndex st + length d\<rparr>)"
        using Cons.prems(1) False by (intro visit_text_pass) simp_all
      from IH [of "st\<lparr>visited := visited st @ [p], charIndex := charIndex st + length d\<rparr>"]
        Cons.prems(1-4) False v y Text show ?thesis by (simp add: expected_end_simps)
    qed
  qed
qed

lemma locate_mem:
  "locate v c xs = Some (y, k) \<Longrightarrow> \<exists>d. (y, Text d) \<in> set xs"
  by (induction v c xs rule: locate.induct) (auto split: if_splits)

lemma process_find_start:
  assumes "\<not> foundStart st" "\<not> stop st" "range' st = span R R"
    and "int (charIndex st) \<le> start s" "start s \<le> end' s"
    and "\<forall>x n. (x, n) \<in> set xs \<longrightarrow> node_at t x = Some n"
    and "\<forall>x n k. (x, n) \<in> set xs \<longrightarrow> \<not> x @ [k] < fst R @ [snd R]"
    and "sorted_wrt text_leads xs"
  shows "\<exists>st'. process conforming t s xs st = Inr st' \<and>
     (foundStart st', stop st', range' st') = expected R (start s) (end' s) (charIndex st) xs"
  using assms
proof (induction xs arbitrary: st)
  case Nil
  then show ?case by (simp add: expected_simps)
next
  case (Cons y xs)
  obtain p n where y: "y = (p, n)" by (cases y)
  have sx: "sorted_wrt text_leads xs" using Cons.prems(8) by simp
  have vx: "\<forall>x n. (x, n) \<in> set xs \<longrightarrow> node_at t x = Some n"
    using Cons.prems(6) by simp
  have rx: "\<forall>x n k. (x, n) \<in> set xs \<longrightarrow> \<not> x @ [k] < fst R @ [snd R]"
    using Cons.prems(7) by simp
  have IH: "\<And>st1. \<not> foundStart st1 \<Longrightarrow> \<not> stop st1 \<Longrightarrow> range' st1 = span R R \<Longrightarrow>
    int (charIndex st1) \<le> start s \<Longrightarrow>
    \<exists>st'. process conforming t s xs st1 = Inr st' \<and>
     (foundStart st', stop st', range' st') = expected R (start s) (end' s) (charIndex st1) xs"
    by (rule Cons.IH [OF _ _ _ _ Cons.prems(5) vx rx sx])
  show ?case
  proof (cases n)
    case (Element cs)
    with IH [of "st\<lparr>visited := visited st @ [p]\<rparr>"] Cons.prems(1-4) y show ?thesis
      by (simp add: expected_simps)
  next
    case (Comment d)
    with IH [of st] Cons.prems(1-4) y show ?thesis by (simp add: expected_simps)
  next
    case (Text d)
    from Cons.prems(6) y Text have nd: "node_at t p = Some (Text d)" by simp
    from Cons.prems(7) y have np: "\<And>k. \<not> p @ [k] < fst R @ [snd R]" by simp
    let ?c = "charIndex st"
    let ?A = "(p, nat (start s - int ?c))"
    show ?thesis
    proof (cases "start s \<le> int (?c + length d)")
      case hitS: True
      show ?thesis
      proof (cases "end' s \<le> int (?c + length d)")
        case True
        have "visit conforming t s (p, Text d) st =
          Inr (st\<lparr>visited := visited st @ [p],
            range' := span ?A (p, nat (end' s - int ?c)),
            foundStart := True, stop := True, charIndex := ?c + length d\<rparr>)"
          using Cons.prems(1,3,4,5) True nd np by (intro visit_text_both) simp_all
        with Cons.prems(2) hitS True y Text show ?thesis
          by (simp add: process_stop expected_simps expected_end_simps)
      next
        case False
        let ?st1 = "st\<lparr>visited := visited st @ [p], range' := span ?A ?A,
            foundStart := True, charIndex := ?c + length d\<rparr>"
        have v: "visit conforming t s (p, Text d) st = Inr ?st1"
          using Cons.prems(1,3,4) hitS False nd np by (intro visit_text_start) simp_all
        have lead: "\<forall>x n k. (x, n) \<in> set xs \<longrightarrow> \<not> x @ [k] < fst ?A @ [snd ?A]"
        proof (intro allI impI)
          fix x n k
          assume "(x, n) \<in> set xs"
          with Cons.prems(8) y Text have "text_leads (p, Text d) (x, n)" by auto
          then have "p @ [nat (start s - int ?c)] < x @ [k]" by (simp add: text_leads_def)
          then show "\<not> x @ [k] < fst ?A @ [snd ?A]" by (simp add: not_less less_imp_le)
        qed
        have "\<exists>st'. process conforming t s xs ?st1 = Inr st' \<and> foundStart st' \<and>
          (stop st', range' st') = expected_end ?A (end' s) (charIndex ?st1) xs"
        proof (rule process_find_end)
          show "foundStart ?st1" by simp
          show "\<not> stop ?st1" using Cons.prems(2) by simp
          show "range' ?st1 = span ?A ?A" by simp
          show "int (charIndex ?st1) \<le> end' s" using False by simp
          show "\<forall>x n. (x, n) \<in> set xs \<longrightarrow> node_at t x = Some n" by (rule vx)
          show "\<forall>x n k. (x, n) \<in> set xs \<longrightarrow> \<not> x @ [k] < fst ?A @ [snd ?A]" by (rule lead)
        qed
        then obtain st' where st': "process conforming t s xs ?st1 = Inr st'" "foundStart st'"
          "(stop st', range' st') = expected_end ?A (end' s) (?c + length d) xs"
          by auto
        show ?thesis
          using Cons.prems(2) hitS False v st' y Text
          by (simp add: expected_simps expected_end_simps)
      qed
    next
      case False
      with Cons.prems(5) have nE: "\<not> end' s \<le> int (?c + length d)" by simp
      have v: "visit conforming t s (p, Text d) st =
        Inr (st\<lparr>visited := visited st @ [p], charIndex := ?c + length d\<rparr>)"
        using Cons.prems(1) False by (intro visit_text_pass) simp_all
      from IH [of "st\<lparr>visited := visited st @ [p], charIndex := ?c + length d\<rparr>"]
        Cons.prems(1-5) False nE v y Text show ?thesis by (simp add: expected_simps)
    qed
  qed
qed

lemma locate_append:
  "locate v c (xs @ ys) =
     (case locate v c xs of
        Some b \<Rightarrow> Some b
      | None \<Rightarrow> locate v (c + text_sum (\<lambda>x l. True) xs) ys)"
  by (induction v c xs rule: locate.induct) (simp_all add: add.assoc split: option.splits)

lemma locate_None_bound:
  "locate v c xs = None \<Longrightarrow> int c \<le> v \<Longrightarrow> int (c + text_sum (\<lambda>x l. True) xs) \<le> v"
  by (induction v c xs rule: locate.induct) (auto split: if_splits)

lemma locate_None_empty:
  "locate v c xs = None \<Longrightarrow> int c \<le> v \<Longrightarrow> v \<le> int (c + text_sum (\<lambda>x l. True) xs) \<Longrightarrow>
   text_sum (\<lambda>x l. True) xs = 0 \<and> v = int c"
proof (induction v c xs rule: locate.induct)
  case (2 v c x d xs)
  from "2.prems"(1) have n: "\<not> v \<le> int (c + length d)" and r: "locate v (c + length d) xs = None"
    by (auto split: if_splits)
  from "2.IH" [OF n r] n "2.prems" show ?case by simp
qed simp_all

lemma locate_tree_order:
  "locate v c (tree_order q n) = Some (x, a) \<longrightarrow> int c \<le> v \<longrightarrow>
     (\<exists>x'. x = q @ x' \<and> valid_point n (x', a) \<and> int (c + text_before n x' a) = v)"
  "locate v c (tree_order_list q i cs) = Some (x, a) \<longrightarrow> int c \<le> v \<longrightarrow>
     (\<exists>j x'. x = q @ (i + j) # x' \<and> j < length cs \<and> valid_point (cs ! j) (x', a) \<and>
        int (c + length (concat (map text_of (take j cs))) + text_before (cs ! j) x' a) = v)"
proof (induction q n and q i cs arbitrary: c x a and c x a rule: tree_order_tree_order_list.induct)
  case (1 p cs)
  show ?case
  proof (intro impI)
    assume "locate v c (tree_order p (Element cs)) = Some (x, a)" and c: "int c \<le> v"
    then have "locate v c (tree_order_list p 0 cs) = Some (x, a)" by simp
    with "1.IH" [of c x a] c obtain j x' where j: "x = p @ j # x'" "j < length cs"
      "valid_point (cs ! j) (x', a)"
      "int (c + length (concat (map text_of (take j cs))) + text_before (cs ! j) x' a) = v"
      by auto
    then show "\<exists>x'. x = p @ x' \<and> valid_point (Element cs) (x', a) \<and>
      int (c + text_before (Element cs) x' a) = v"
      by (intro exI [of _ "j # x'"]) (simp add: add.assoc)
  qed
next
  case (2 p d)
  show ?case
    by (intro impI exI [of _ "[]"]) (auto split: if_splits)
next
  case (3 p d)
  show ?case by simp
next
  case (4 p i)
  show ?case by simp
next
  case (5 p i ch cs)
  show ?case
  proof (intro impI)
    assume l: "locate v c (tree_order_list p i (ch # cs)) = Some (x, a)" and c: "int c \<le> v"
    show "\<exists>j x'. x = p @ (i + j) # x' \<and> j < length (ch # cs) \<and>
      valid_point ((ch # cs) ! j) (x', a) \<and>
      int (c + length (concat (map text_of (take j (ch # cs)))) +
        text_before ((ch # cs) ! j) x' a) = v"
    proof (cases "locate v c (tree_order (p @ [i]) ch)")
      case (Some b)
      with l have "locate v c (tree_order (p @ [i]) ch) = Some (x, a)"
        by (simp add: locate_append)
      with "5.IH"(1) [of c x a] c obtain x' where "x = (p @ [i]) @ x'" "valid_point ch (x', a)"
        "int (c + text_before ch x' a) = v" by auto
      then show ?thesis by (intro exI [of _ 0] exI [of _ x']) simp
    next
      case None
      let ?c = "c + length (text_of ch)"
      from None l have "locate v ?c (tree_order_list p (Suc i) cs) = Some (x, a)"
        by (simp add: locate_append text_sum_all)
      moreover from locate_None_bound [OF None c] have "int ?c \<le> v" by (simp add: text_sum_all)
      ultimately obtain j x' where j: "x = p @ (Suc i + j) # x'" "j < length cs"
        "valid_point (cs ! j) (x', a)"
        "int (?c + length (concat (map text_of (take j cs))) + text_before (cs ! j) x' a) = v"
        using "5.IH"(2) [of ?c x a] by auto
      then show ?thesis by (intro exI [of _ "Suc j"] exI [of _ x']) (simp add: add.assoc)
    qed
  qed
qed

lemma tree_order_leads:
  "sorted_wrt text_leads (tree_order q n)"
  "sorted_wrt text_leads (tree_order_list q i cs)"
proof (induction q n and q i cs rule: tree_order_tree_order_list.induct)
  case (1 p cs)
  then show ?case by (simp add: text_leads_def)
next
  case (5 p i ch cs)
  have "text_leads u w" if "u \<in> set (tree_order (p @ [i]) ch)"
    and "w \<in> set (tree_order_list p (Suc i) cs)" for u w
  proof -
    obtain x m where u: "u = (x, m)" by (cases u)
    obtain y k where w: "w = (y, k)" by (cases w)
    from that(1) u obtain x' where x: "x = (p @ [i]) @ x'" by (auto dest: tree_order_entry)
    from that(2) w obtain j y' where y: "y = p @ (Suc i + j) # y'"
      by (auto dest: tree_order_list_entry)
    show ?thesis by (simp add: text_leads_def u w x y append_less_append)
  qed
  with "5.IH" show ?case by (simp add: sorted_wrt_append)
qed simp_all

subsection \<open>Restoring a snapshot whose offsets lie within the text of the root\<close>

lemma locate_order:
  "sorted_wrt text_leads xs \<Longrightarrow> locate b c xs = Some A \<Longrightarrow> locate e c xs = Some B \<Longrightarrow>
   b \<le> e \<Longrightarrow> \<not> fst B @ [snd B] < fst A @ [snd A]"
proof (induction b c xs rule: locate.induct)
  case (2 v c x d xs)
  show ?case
  proof (cases "v \<le> int (c + length d)")
    case hit: True
    with "2.prems"(2) have A: "A = (x, nat (v - int c))" by simp
    show ?thesis
    proof (cases "e \<le> int (c + length d)")
      case True
      with "2.prems"(3) have "B = (x, nat (e - int c))" by simp
      with A "2.prems"(4) show ?thesis by (simp add: snoc_less_snoc)
    next
      case False
      with "2.prems"(3) have "locate e (c + length d) xs = Some (fst B, snd B)" by simp
      from locate_mem [OF this] obtain d' where "(fst B, Text d') \<in> set xs" by blast
      with "2.prems"(1) have "text_leads (x, Text d) (fst B, Text d')" by auto
      then have "x @ [nat (v - int c)] < fst B @ [snd B]" by (simp add: text_leads_def)
      with A show ?thesis by (simp add: not_less less_imp_le)
    qed
  next
    case False
    with "2.prems"(4) have "\<not> e \<le> int (c + length d)" by simp
    with False "2.prems" "2.IH" show ?thesis by simp
  qed
qed simp_all

lemma locate_Some_bound:
  "locate v c xs = Some B \<Longrightarrow> v \<le> int (c + text_sum (\<lambda>x l. True) xs)"
  by (induction v c xs rule: locate.induct) (auto split: if_splits)

lemma restoreRange_walk:
  assumes "node_at t rp = Some root"
  shows "restoreRange conforming t rp s = walk conforming t s (initial rp root)"
proof -
  have c: "createRange conforming = Inr (span ([], 0) ([], 0))"
    by (simp add: createRange_def conforming_def span_def)
  have "\<not> rp @ [0] < [] @ [0]" using Nil_le_snoc [of rp 0] by (simp add: not_less)
  then have s: "setStart conforming t (span ([], 0) ([], 0)) rp 0 = Inr (span (rp, 0) (rp, 0))"
    using assms by (intro setStart_collapsed [where n = root]) simp_all
  have k: "collapse conforming (span (rp, 0) (rp, 0)) True = Inr (span (rp, 0) (rp, 0))"
    by (simp add: collapse_def conforming_def span_def)
  show ?thesis by (simp add: restoreRange_def c s k bind_def assms initial_def)
qed

lemma restoreRange_process:
  assumes "node_at t rp = Some root"
  shows "map_sum id clear (restoreRange conforming t rp s) =
    process conforming t s (tree_order rp root) (clear (initial rp root))"
  by (simp add: restoreRange_walk [OF assms] walk_process worklist_def initial_def)

lemma tree_order_valid:
  assumes "node_at t rp = Some root"
  shows "\<forall>x n. (x, n) \<in> set (tree_order rp root) \<longrightarrow> node_at t x = Some n"
  using assms by (auto dest!: tree_order_entry simp: node_at_append)

lemma tree_order_not_before:
  "\<forall>x n k. (x, n) \<in> set (tree_order rp root) \<longrightarrow> \<not> x @ [k] < rp @ [0]"
proof (intro allI impI)
  fix x n k
  assume "(x, n) \<in> set (tree_order rp root)"
  then obtain x' where "x = rp @ x'" by (auto dest: tree_order_entry)
  then show "\<not> x @ [k] < rp @ [0]"
    using Nil_le_snoc [of x' k] by (simp add: append_less_append not_less)
qed

lemma clear_fields [simp]:
  "foundStart (clear st) = foundStart st" "range' (clear st) = range' st"
  "visited (clear st) = visited st"
  by (simp_all add: clear_def)

lemma restoreRange_expected:
  assumes root: "node_at t rp = Some root"
    and "0 \<le> start s" "start s \<le> end' s"
  shows "\<exists>st. restoreRange conforming t rp s = Inr st \<and>
    (foundStart st, stop st, range' st) =
      expected (rp, 0) (start s) (end' s) 0 (tree_order rp root)"
proof -
  have "\<exists>st'. process conforming t s (tree_order rp root) (clear (initial rp root)) = Inr st' \<and>
    (foundStart st', stop st', range' st') =
      expected (rp, 0) (start s) (end' s) (charIndex (clear (initial rp root))) (tree_order rp root)"
  proof (rule process_find_start)
    show "\<forall>x n. (x, n) \<in> set (tree_order rp root) \<longrightarrow> node_at t x = Some n"
      by (rule tree_order_valid [OF root])
    show "\<forall>x n k. (x, n) \<in> set (tree_order rp root) \<longrightarrow> \<not> x @ [k] < fst (rp, 0::nat) @ [snd (rp, 0::nat)]"
      using tree_order_not_before [of rp root] by simp
    show "sorted_wrt text_leads (tree_order rp root)" by (rule tree_order_leads)
  qed (use assms in \<open>simp_all add: initial_def\<close>)
  then obtain st' where p: "process conforming t s (tree_order rp root) (clear (initial rp root)) = Inr st'"
    and e: "(foundStart st', stop st', range' st') =
      expected (rp, 0) (start s) (end' s) 0 (tree_order rp root)"
    by (auto simp: initial_def)
  from p restoreRange_process [OF root, of s] obtain st where
    "restoreRange conforming t rp s = Inr st" "clear st = st'"
    by (cases "restoreRange conforming t rp s") auto
  with e show ?thesis by (intro exI [of _ st]) auto
qed

lemma restoreRange_points:
  assumes root: "node_at t rp = Some root"
    and b0: "0 \<le> start s" and be: "start s \<le> end' s"
    and et: "end' s \<le> int (length (text_of root))"
  shows "\<exists>st qa ka qb kb. restoreRange conforming t rp s = Inr st \<and>
    range' st = span (rp @ qa, ka) (rp @ qb, kb) \<and>
    valid_point root (qa, ka) \<and> valid_point root (qb, kb) \<and>
    int (text_before root qa ka) = start s \<and> int (text_before root qb kb) = end' s \<and>
    \<not> (rp @ qb) @ [kb] < (rp @ qa) @ [ka] \<and>
    (start s = end' s \<longrightarrow> qa = qb \<and> ka = kb)"
proof -
  let ?xs = "tree_order rp root"
  have total: "text_sum (\<lambda>x l. True) ?xs = length (text_of root)" by (simp add: text_sum_all)
  from restoreRange_expected [OF root b0 be] obtain st where
    st: "restoreRange conforming t rp s = Inr st"
    and ex: "(foundStart st, stop st, range' st) = expected (rp, 0) (start s) (end' s) 0 ?xs"
    by blast
  show ?thesis
  proof (cases "locate (start s) 0 ?xs")
    case None
    from locate_None_empty [OF None] b0 be et total
    have z: "length (text_of root) = 0" "start s = 0" by auto
    with be et have e0: "end' s = 0" by simp
    from None ex have "range' st = span (rp @ [], 0) (rp @ [], 0)" by (simp add: expected_def)
    with st z e0 show ?thesis
      by (intro exI [of _ st] exI [of _ "[]"] exI [of _ 0]) simp
  next
    case (Some A)
    obtain x a where A: "A = (x, a)" by (cases A)
    from locate_tree_order(1) [of "start s" 0 rp root x a] Some A b0
    obtain qa where qa: "x = rp @ qa" "valid_point root (qa, a)" "int (text_before root qa a) = start s"
      by auto
    show ?thesis
    proof (cases "locate (end' s) 0 ?xs")
      case None
      from locate_None_empty [OF None] b0 be et total
      have z: "end' s = 0" by auto
      with b0 be have s0: "start s = 0" by simp
      from None Some ex A qa have "range' st = span (rp @ qa, a) (rp @ qa, a)"
        by (simp add: expected_def expected_end_def)
      with st qa z s0 show ?thesis
        by (intro exI [of _ st] exI [of _ qa] exI [of _ a]) simp
    next
      case B: (Some B)
      obtain y b where Bp: "B = (y, b)" by (cases B)
      from locate_tree_order(1) [of "end' s" 0 rp root y b] B Bp b0 be
      obtain qb where qb: "y = rp @ qb" "valid_point root (qb, b)" "int (text_before root qb b) = end' s"
        by auto
      from B Some ex A Bp qa qb have r: "range' st = span (rp @ qa, a) (rp @ qb, b)"
        by (simp add: expected_def expected_end_def)
      from locate_order [OF tree_order_leads(1) Some B be] A Bp qa qb
      have o: "\<not> (rp @ qb) @ [b] < (rp @ qa) @ [a]" by simp
      have c: "start s = end' s \<longrightarrow> qa = qb \<and> a = b"
        using Some B A Bp qa qb by auto
      from st r qa qb o c show ?thesis
        by (intro exI [of _ st] exI [of _ qa] exI [of _ a] exI [of _ qb] exI [of _ b]) simp
    qed
  qed
qed

lemma selectRange_conforming:
  "selection doc \<noteq> None \<Longrightarrow> selectRange conforming doc r = Inr (doc\<lparr>selection := Some [r]\<rparr>)"
  by (auto simp: selectRange_def getSelection_def removeAllRanges_def addRange_def conforming_def)

lemma import_then_export:
  assumes root: "node_at (tree doc) rp = Some root" and sel: "selection doc \<noteq> None"
    and b0: "0 \<le> start s" and be: "start s \<le> end' s"
    and et: "end' s \<le> int (length (text_of root))"
  shows "\<exists>r s2. importSelection conforming doc (Some rp) (Some s) =
      (True, doc\<lparr>selection := Some [r]\<rparr>) \<and>
    (start s = end' s \<longrightarrow> range_collapsed r) \<and>
    exportSelection conforming (doc\<lparr>selection := Some [r]\<rparr>) (Some rp) = Inr (Some s2) \<and>
    start s2 = start s \<and> end' s2 = end' s \<and> collapsed s2 = range_collapsed r"
proof -
  from restoreRange_points [OF root b0 be et] obtain st qa ka qb kb where
    st: "restoreRange conforming (tree doc) rp s = Inr st"
    and r: "range' st = span (rp @ qa, ka) (rp @ qb, kb)"
    and va: "valid_point root (qa, ka)" and vb: "valid_point root (qb, kb)"
    and ta: "int (text_before root qa ka) = start s"
    and tb: "int (text_before root qb kb) = end' s"
    and o: "\<not> (rp @ qb) @ [kb] < (rp @ qa) @ [ka]"
    and c: "start s = end' s \<longrightarrow> qa = qb \<and> ka = kb"
    by blast
  let ?r = "range' st"
  let ?doc = "doc\<lparr>selection := Some [?r]\<rparr>"
  have imp: "importSelection conforming doc (Some rp) (Some s) = (True, ?doc)"
    by (simp add: importSelection_def st selectRange_conforming [OF sel])
  have vr: "valid_range (tree ?doc) ?r"
    using va vb o root
    by (simp add: valid_range_def r valid_point_append position_After)
  have "exportSelection conforming ?doc (Some rp) =
    Inr (Some \<lparr>start = int (text_before root qa (startOffset ?r)),
               end' = int (text_before root qb (endOffset ?r)),
               startContainer' = Some (startContainer ?r),
               endContainer' = Some (endContainer ?r),
               collapsed = range_collapsed ?r\<rparr>)"
    by (rule export_within_root [where rs = "[]"]) (use root vr r in simp_all)
  with imp ta tb c r show ?thesis
    by (intro exI [of _ ?r]) (auto simp: range_collapsed_def)
qed

subsection \<open>Every snapshot: no exception, and the order of the visit\<close>

lemma setStart_ok:
  assumes "node_at t p = Some n" "off \<le> node_length n"
  shows "\<exists>r'. setStart conforming t r p off = Inr r' \<and> start_point r' = (p, off)"
  using assms by (simp add: setStart_def conforming_def start_point_def)

lemma setEnd_ok:
  assumes "node_at t p = Some n" "off \<le> node_length n"
  shows "\<exists>r'. setEnd conforming t r p off = Inr r' \<and> end_point r' = (p, off)"
  using assms by (simp add: setEnd_def conforming_def end_point_def)

lemma checkStart_ok:
  assumes "node_at t p = Some (Text d)" "k = charIndex st + length d"
  shows "\<exists>st1. checkStart conforming t s p k st = Inr st1 \<and>
    node st1 = node st \<and> nodeStack st1 = nodeStack st \<and> charIndex st1 = charIndex st \<and>
    stop st1 = stop st \<and> visited st1 = visited st \<and>
    (\<not> foundStart st \<and> int (charIndex st) \<le> start s \<and> start s \<le> int k \<longrightarrow>
       foundStart st1 \<and> start_point (range' st1) = (p, nat (start s - int (charIndex st))))"
proof (cases "\<not> foundStart st \<and> int (charIndex st) \<le> start s \<and> start s \<le> int k")
  case True
  with assms(2) have "nat (start s - int (charIndex st)) \<le> node_length (Text d)" by auto
  from setStart_ok [OF assms(1) this, of "range' st"] obtain r' where
    "setStart conforming t (range' st) p (nat (start s - int (charIndex st))) = Inr r'"
    "start_point r' = (p, nat (start s - int (charIndex st)))" by blast
  with True show ?thesis by (simp add: checkStart_def bind_def)
next
  case False
  then show ?thesis by (auto simp: checkStart_def)
qed

lemma checkEnd_ok:
  assumes "node_at t p = Some (Text d)" "k = charIndex st + length d"
  shows "\<exists>st2. checkEnd conforming t s p k st = Inr st2 \<and>
    node st2 = node st \<and> nodeStack st2 = nodeStack st \<and> charIndex st2 = charIndex st \<and>
    foundStart st2 = foundStart st \<and> visited st2 = visited st \<and>
    (stop st \<longrightarrow> stop st2) \<and>
    (foundStart st \<and> int (charIndex st) \<le> end' s \<and> end' s \<le> int k \<longrightarrow>
       stop st2 \<and> end_point (range' st2) = (p, nat (end' s - int (charIndex st))))"
proof (cases "foundStart st \<and> int (charIndex st) \<le> end' s \<and> end' s \<le> int k")
  case True
  with assms(2) have "nat (end' s - int (charIndex st)) \<le> node_length (Text d)" by auto
  from setEnd_ok [OF assms(1) this, of "range' st"] obtain r' where
    "setEnd conforming t (range' st) p (nat (end' s - int (charIndex st))) = Inr r'"
    "end_point r' = (p, nat (end' s - int (charIndex st)))" by blast
  with True show ?thesis by (simp add: checkEnd_def bind_def)
next
  case False
  then show ?thesis by (auto simp: checkEnd_def)
qed

lemma visitText_ok:
  assumes "node_at t p = Some (Text d)"
  shows "\<exists>st'. visitText conforming t s p (Text d) st = Inr st'"
proof -
  from checkStart_ok [OF assms, of "charIndex st + length d" st s] obtain st1 where
    c1: "checkStart conforming t s p (charIndex st + length d) st = Inr st1"
    and k1: "charIndex st1 = charIndex st" by auto
  from checkEnd_ok [OF assms, of "charIndex st + length d" st1 s] k1 obtain st2 where
    c2: "checkEnd conforming t s p (charIndex st + length d) st1 = Inr st2" by auto
  show ?thesis by (simp add: visitText_def c1 c2 bind_def)
qed

lemma visit_ok:
  assumes "node_at t p = Some n"
  shows "\<exists>st'. visit conforming t s (p, n) st = Inr st'"
proof (cases n)
  case (Text d)
  with visitText_ok [of t p d s "st\<lparr>visited := visited st @ [p]\<rparr>"] assms show ?thesis by simp
qed simp_all

lemma process_total:
  "\<forall>x n. (x, n) \<in> set xs \<longrightarrow> node_at t x = Some n \<Longrightarrow>
   \<exists>st'. process conforming t s xs st = Inr st'"
proof (induction xs arbitrary: st)
  case Nil
  then show ?case by simp
next
  case (Cons y xs)
  obtain p n where y: "y = (p, n)" by (cases y)
  from Cons.prems y have "node_at t p = Some n" by simp
  from visit_ok [OF this, of s st] obtain st1 where v: "visit conforming t s (p, n) st = Inr st1"
    by blast
  from Cons.prems have "\<forall>x n. (x, n) \<in> set xs \<longrightarrow> node_at t x = Some n" by simp
  from Cons.IH [OF this, of st1] v y show ?case by simp
qed

lemma restoreRange_total:
  assumes "node_at t rp = Some root"
  shows "\<exists>st. restoreRange conforming t rp s = Inr st"
proof -
  from process_total [OF tree_order_valid [OF assms], of s "clear (initial rp root)"]
  obtain st' where "process conforming t s (tree_order rp root) (clear (initial rp root)) = Inr st'"
    by blast
  with restoreRange_process [OF assms, of s] show ?thesis
    by (cases "restoreRange conforming t rp s") auto
qed

lemma selectRange_conforming_total:
  "selectRange conforming doc r =
     Inr (if selection doc = None then doc else doc\<lparr>selection := Some [r]\<rparr>)"
  by (cases "selection doc")
     (simp_all add: selectRange_def getSelection_def removeAllRanges_def addRange_def conforming_def)

lemma process_no_end:
  assumes "\<not> stop st" "range' st = span A A"
    and "\<not> foundStart st \<longrightarrow> (\<forall>x n k. (x, n) \<in> set xs \<longrightarrow> \<not> x @ [k] < fst A @ [snd A])"
    and "int (charIndex st + text_sum (\<lambda>x l. True) xs) < end' s"
    and "\<forall>x n. (x, n) \<in> set xs \<longrightarrow> node_at t x = Some n"
  shows "\<exists>st' A'. process conforming t s xs st = Inr st' \<and> \<not> stop st' \<and> range' st' = span A' A'"
  using assms
proof (induction xs arbitrary: st A)
  case Nil
  then show ?case by (intro exI [of _ st] exI [of _ A]) simp
next
  case (Cons y xs)
  obtain p n where y: "y = (p, n)" by (cases y)
  have vx: "\<forall>x n. (x, n) \<in> set xs \<longrightarrow> node_at t x = Some n" using Cons.prems(5) by simp
  have ox: "\<not> foundStart st \<longrightarrow> (\<forall>x n k. (x, n) \<in> set xs \<longrightarrow> \<not> x @ [k] < fst A @ [snd A])"
    using Cons.prems(3) by simp
  show ?case
  proof (cases n)
    case (Element cs)
    have "\<exists>st' A'. process conforming t s xs (st\<lparr>visited := visited st @ [p]\<rparr>) = Inr st' \<and>
      \<not> stop st' \<and> range' st' = span A' A'"
      by (rule Cons.IH [where A = A]) (use Cons.prems(1,2,4) ox vx y Element in simp_all)
    with Cons.prems(1) y Element show ?thesis by simp
  next
    case (Comment d)
    have "\<exists>st' A'. process conforming t s xs st = Inr st' \<and>
      \<not> stop st' \<and> range' st' = span A' A'"
      by (rule Cons.IH [where A = A]) (use Cons.prems(1,2,4) ox vx y Comment in simp_all)
    with Cons.prems(1) y Comment show ?thesis by simp
  next
    case (Text d)
    from Cons.prems(5) y Text have nd: "node_at t p = Some (Text d)" by simp
    from Cons.prems(4) y Text have far: "\<not> end' s \<le> int (charIndex st + length d)"
      and far': "int (charIndex st + length d + text_sum (\<lambda>x l. True) xs) < end' s"
      by (simp_all add: add.assoc)
    let ?c = "charIndex st"
    show ?thesis
    proof (cases "\<not> foundStart st \<and> int ?c \<le> start s \<and> start s \<le> int (?c + length d)")
      case True
      let ?B = "(p, nat (start s - int ?c))"
      let ?st1 = "st\<lparr>visited := visited st @ [p], range' := span ?B ?B,
        foundStart := True, charIndex := ?c + length d\<rparr>"
      from True Cons.prems(3) y have np: "\<not> p @ [nat (start s - int ?c)] < fst A @ [snd A]"
        by simp
      have v: "visit conforming t s (p, Text d) st = Inr ?st1"
        using True far nd Cons.prems(2) np by (intro visit_text_start) simp_all
      have "\<exists>st' A'. process conforming t s xs ?st1 = Inr st' \<and>
        \<not> stop st' \<and> range' st' = span A' A'"
        by (rule Cons.IH [where A = ?B]) (use Cons.prems(1) far' vx in simp_all)
      with Cons.prems(1) v y Text show ?thesis by simp
    next
      case False
      let ?st1 = "st\<lparr>visited := visited st @ [p], charIndex := ?c + length d\<rparr>"
      have v: "visit conforming t s (p, Text d) st = Inr ?st1"
        using False far by (intro visit_text_pass) auto
      have "\<exists>st' A'. process conforming t s xs ?st1 = Inr st' \<and>
        \<not> stop st' \<and> range' st' = span A' A'"
        by (rule Cons.IH [where A = A]) (use Cons.prems(1,2) ox far' vx in simp_all)
      with Cons.prems(1) v y Text show ?thesis by simp
    qed
  qed
qed

lemma clear_stop_fields [simp]: "stop (clear st) = stop st"
  by (simp add: clear_def)

lemma restoreRange_no_end:
  assumes root: "node_at t rp = Some root" and far: "int (length (text_of root)) < end' s"
  shows "\<exists>st. restoreRange conforming t rp s = Inr st \<and> \<not> stop st \<and> range_collapsed (range' st)"
proof -
  have "\<exists>st' A'. process conforming t s (tree_order rp root) (clear (initial rp root)) = Inr st' \<and>
    \<not> stop st' \<and> range' st' = span A' A'"
  proof (rule process_no_end [where A = "(rp, 0)"])
    show "\<forall>x n. (x, n) \<in> set (tree_order rp root) \<longrightarrow> node_at t x = Some n"
      by (rule tree_order_valid [OF root])
    show "\<not> foundStart (clear (initial rp root)) \<longrightarrow>
      (\<forall>x n k. (x, n) \<in> set (tree_order rp root) \<longrightarrow> \<not> x @ [k] < fst (rp, 0::nat) @ [snd (rp, 0::nat)])"
      using tree_order_not_before [of rp root] by simp
  qed (use far in \<open>simp_all add: initial_def text_sum_all\<close>)
  then obtain st' A' where p: "process conforming t s (tree_order rp root) (clear (initial rp root)) = Inr st'"
    and f: "\<not> stop st'" "range' st' = span A' A'" by blast
  from p restoreRange_process [OF root, of s] obtain st where
    "restoreRange conforming t rp s = Inr st" "clear st = st'"
    by (cases "restoreRange conforming t rp s") auto
  with f show ?thesis
    by (intro exI [of _ st]) (auto simp: range_collapsed_def)
qed

lemma expected_far:
  "locate e c xs = None \<Longrightarrow>
   snd (snd (expected R b e c xs)) = snd (snd (expected R b b c xs))"
  by (simp add: expected_def expected_end_def split: option.splits)

lemma locate_far:
  "int (c + text_sum (\<lambda>x l. True) xs) < e \<Longrightarrow> locate e c xs = None"
  using locate_Some_bound [of e c xs] by (cases "locate e c xs") auto

lemma process_no_start:
  assumes "\<not> foundStart st" "\<not> stop st"
    and "start s < int (charIndex st) \<or>
      int (charIndex st + text_sum (\<lambda>x l. True) xs) < start s"
  shows "\<exists>st'. process pf t s xs st = Inr st' \<and> \<not> foundStart st' \<and> \<not> stop st' \<and>
    range' st' = range' st"
  using assms
proof (induction xs arbitrary: st)
  case Nil
  then show ?case by simp
next
  case (Cons y xs)
  obtain p n where y: "y = (p, n)" by (cases y)
  show ?case
  proof (cases n)
    case (Element cs)
    let ?st1 = "st\<lparr>visited := visited st @ [p]\<rparr>"
    have "\<exists>st'. process pf t s xs ?st1 = Inr st' \<and> \<not> foundStart st' \<and> \<not> stop st' \<and>
      range' st' = range' ?st1"
      by (rule Cons.IH) (use Cons.prems y Element in simp_all)
    with Cons.prems(2) y Element show ?thesis by simp
  next
    case (Comment d)
    have "\<exists>st'. process pf t s xs st = Inr st' \<and> \<not> foundStart st' \<and> \<not> stop st' \<and>
      range' st' = range' st"
      by (rule Cons.IH) (use Cons.prems y Comment in simp_all)
    with Cons.prems(2) y Comment show ?thesis by simp
  next
    case (Text d)
    let ?st1 = "st\<lparr>visited := visited st @ [p], charIndex := charIndex st + length d\<rparr>"
    have v: "visit pf t s (p, Text d) st = Inr ?st1"
      using Cons.prems y Text by (intro visit_text_pass) auto
    have "\<exists>st'. process pf t s xs ?st1 = Inr st' \<and> \<not> foundStart st' \<and> \<not> stop st' \<and>
      range' st' = range' ?st1"
      by (rule Cons.IH) (use Cons.prems y Text in \<open>auto simp: add.assoc\<close>)
    with Cons.prems(2) v y Text show ?thesis by simp
  qed
qed

lemma restoreRange_no_start:
  assumes root: "node_at t rp = Some root"
    and out: "start s < 0 \<or> int (length (text_of root)) < start s"
  shows "\<exists>st. restoreRange conforming t rp s = Inr st \<and> \<not> foundStart st \<and> \<not> stop st \<and>
    range' st = span (rp, 0) (rp, 0)"
proof -
  have "\<exists>st'. process conforming t s (tree_order rp root) (clear (initial rp root)) = Inr st' \<and>
    \<not> foundStart st' \<and> \<not> stop st' \<and> range' st' = range' (clear (initial rp root))"
    by (rule process_no_start) (use out in \<open>simp_all add: initial_def text_sum_all clear_def\<close>)
  then obtain st' where
    p: "process conforming t s (tree_order rp root) (clear (initial rp root)) = Inr st'"
    and f: "\<not> foundStart st'" "\<not> stop st'" "range' st' = span (rp, 0) (rp, 0)"
    by (auto simp: initial_def)
  from p restoreRange_process [OF root, of s] obtain st where
    "restoreRange conforming t rp s = Inr st" "clear st = st'"
    by (cases "restoreRange conforming t rp s") auto
  with f show ?thesis by (intro exI [of _ st]) auto
qed

lemma restoreRange_start_only:
  assumes root: "node_at t rp = Some root"
    and b0: "0 \<le> start s" and bt: "start s \<le> int (length (text_of root))"
    and far: "int (length (text_of root)) < end' s"
  shows "\<exists>st. restoreRange conforming t rp s = Inr st \<and> \<not> stop st \<and>
    (foundStart st, range' st) =
      (case locate (start s) 0 (tree_order rp root) of
         None \<Rightarrow> (False, span (rp, 0) (rp, 0))
       | Some A \<Rightarrow> (True, span A A))"
proof -
  from bt far have le: "start s \<le> end' s" by simp
  from restoreRange_expected [OF root b0 le] obtain st where
    st: "restoreRange conforming t rp s = Inr st"
    and ex: "(foundStart st, stop st, range' st) =
      expected (rp, 0) (start s) (end' s) 0 (tree_order rp root)"
    by auto
  have n: "locate (end' s) 0 (tree_order rp root) = None"
    using far by (intro locate_far) (simp add: text_sum_all)
  from ex n have "\<not> stop st \<and> (foundStart st, range' st) =
      (case locate (start s) 0 (tree_order rp root) of
         None \<Rightarrow> (False, span (rp, 0) (rp, 0))
       | Some A \<Rightarrow> (True, span A A))"
    by (auto simp: expected_def expected_end_def split: option.splits)
  with st show ?thesis by blast
qed

lemma restoreRange_end_beyond:
  assumes root: "node_at t rp = Some root"
    and far: "int (length (text_of root)) < end' s"
  shows "\<exists>st. restoreRange conforming t rp s = Inr st \<and> \<not> stop st \<and>
    range_collapsed (range' st) \<and>
    start_point (range' st) =
      (if 0 \<le> start s \<and> start s \<le> int (length (text_of root))
       then case locate (start s) 0 (tree_order rp root) of None \<Rightarrow> (rp, 0) | Some A \<Rightarrow> A
       else (rp, 0)) \<and>
    foundStart st =
      (0 \<le> start s \<and> start s \<le> int (length (text_of root)) \<and>
       locate (start s) 0 (tree_order rp root) \<noteq> None)"
proof (cases "0 \<le> start s \<and> start s \<le> int (length (text_of root))")
  case True
  with restoreRange_start_only [OF root _ _ far, of] obtain st where
    "restoreRange conforming t rp s = Inr st" "\<not> stop st"
    "(foundStart st, range' st) =
      (case locate (start s) 0 (tree_order rp root) of
         None \<Rightarrow> (False, span (rp, 0) (rp, 0))
       | Some A \<Rightarrow> (True, span A A))" by blast
  with True show ?thesis
    by (intro exI [of _ st]) (auto simp: range_collapsed_def split: option.splits)
next
  case False
  then have "start s < 0 \<or> int (length (text_of root)) < start s" by auto
  from restoreRange_no_start [OF root this] obtain st where
    "restoreRange conforming t rp s = Inr st" "\<not> foundStart st" "\<not> stop st"
    "range' st = span (rp, 0) (rp, 0)" by blast
  with False show ?thesis
    by (intro exI [of _ st]) (auto simp: range_collapsed_def)
qed

lemma kept_simps [simp]:
  "kept [] = []" "kept (xs @ ys) = kept xs @ kept ys"
  "kept ((p, Element cs) # xs) = p # kept xs"
  "kept ((p, Text d) # xs) = p # kept xs"
  "kept ((p, Comment d) # xs) = kept xs"
  by (simp_all add: kept_def)

lemma kept_tree_order:
  "kept (tree_order q n) = dfs q n"
  "kept (tree_order_list q i cs) = dfs_list q i cs"
  by (induction q n and q i cs rule: tree_order_tree_order_list.induct) simp_all

lemma char_count_kept:
  "\<forall>x n. (x, n) \<in> set ys \<longrightarrow> node_at t x = Some n \<Longrightarrow>
   char_count t (kept ys) = text_sum (\<lambda>x l. True) ys"
proof (induction ys)
  case Nil
  then show ?case by (simp add: char_count_def)
next
  case (Cons y ys)
  obtain p n where y: "y = (p, n)" by (cases y)
  from Cons.prems y have n: "node_at t p = Some n" by simp
  from Cons.prems have "\<forall>x n. (x, n) \<in> set ys \<longrightarrow> node_at t x = Some n" by simp
  from Cons.IH [OF this] have IH: "char_count t (kept ys) = text_sum (\<lambda>x l. True) ys" .
  show ?case using IH n y by (cases n) (simp_all add: char_count_def)
qed

lemma setEnd_container: "setEnd pf t r p off = Inr r' \<Longrightarrow> endContainer r' = p"
  by (auto simp: setEnd_def split: if_splits option.splits)

lemma checkEnd_stop:
  "checkEnd pf t s p k st = Inr st' \<Longrightarrow> stop st' \<Longrightarrow> \<not> stop st \<Longrightarrow>
   endContainer (range' st') = p"
  by (auto simp: checkEnd_def bind_def split: if_splits sum.splits dest: setEnd_container)

lemma visitText_stop:
  assumes "visitText pf t s p n st = Inr st'" "stop st'" "\<not> stop st"
  shows "endContainer (range' st') = p"
proof -
  from assms(1) obtain st1 st2 where
    c1: "checkStart pf t s p (charIndex st + length (textContent n)) st = Inr st1"
    and c2: "checkEnd pf t s p (charIndex st + length (textContent n)) st1 = Inr st2"
    and e: "st' = st2\<lparr>charIndex := charIndex st + length (textContent n)\<rparr>"
    by (auto simp: visitText_def bind_def Let_def split: sum.splits)
  from checkStart_keeps [OF c1] assms(3) have "\<not> stop st1" by simp
  with checkEnd_stop [OF c2] assms(2) e show ?thesis by simp
qed

lemma visit_effect:
  assumes "visit pf t s (p, n) st = Inr st1"
  shows "visited st1 = visited st @ kept [(p, n)] \<and>
    charIndex st1 = charIndex st + length (own_text n) \<and>
    (stop st1 \<longrightarrow> \<not> stop st \<longrightarrow> is_text n \<and> endContainer (range' st1) = p)"
proof (cases n)
  case (Text d)
  with assms have v: "visitText pf t s p (Text d) (st\<lparr>visited := visited st @ [p]\<rparr>) = Inr st1"
    by simp
  from visitText_keeps [OF v] visitText_stop [OF v] Text show ?thesis by simp
next
  case (Element cs)
  with assms show ?thesis by auto
next
  case (Comment d)
  with assms show ?thesis by auto
qed

lemma process_trace:
  "process pf t s xs st = Inr st' \<Longrightarrow>
   \<exists>ys zs. xs = ys @ zs \<and> visited st' = visited st @ kept ys \<and>
     charIndex st' = charIndex st + text_sum (\<lambda>x l. True) ys \<and>
     (stop st \<longrightarrow> ys = []) \<and> (\<not> stop st' \<longrightarrow> zs = []) \<and>
     (stop st' \<longrightarrow> \<not> stop st \<longrightarrow>
        ys \<noteq> [] \<and> is_text (snd (last ys)) \<and> fst (last ys) = endContainer (range' st'))"
proof (induction xs arbitrary: st)
  case Nil
  then show ?case by simp
next
  case (Cons y xs)
  obtain p n where y: "y = (p, n)" by (cases y)
  show ?case
  proof (cases "stop st")
    case True
    with Cons.prems have "st' = st" by simp
    with True show ?thesis by (intro exI [of _ "[]"] exI [of _ "y # xs"]) simp
  next
    case False
    with Cons.prems y obtain st1 where v: "visit pf t s (p, n) st = Inr st1"
      and r: "process pf t s xs st1 = Inr st'"
      by (auto split: sum.splits)
    from Cons.IH [OF r] obtain ys zs where x: "xs = ys @ zs"
      and vs: "visited st' = visited st1 @ kept ys"
      and ci: "charIndex st' = charIndex st1 + text_sum (\<lambda>x l. True) ys"
      and s1: "stop st1 \<longrightarrow> ys = []" and ns: "\<not> stop st' \<longrightarrow> zs = []"
      and l: "stop st' \<longrightarrow> \<not> stop st1 \<longrightarrow>
        ys \<noteq> [] \<and> is_text (snd (last ys)) \<and> fst (last ys) = endContainer (range' st')"
      by blast
    note e = visit_effect [OF v]
    have "stop st' \<Longrightarrow> is_text (snd (last (y # ys))) \<and>
      fst (last (y # ys)) = endContainer (range' st')"
    proof (cases "stop st1")
      case True
      with s1 have "ys = []" by simp
      moreover from True r have "st' = st1" by (simp add: process_stop)
      ultimately show ?thesis using e True False y by simp
    next
      case False
      assume "stop st'"
      with l False show ?thesis by simp
    qed
    with x vs ci ns e False y show ?thesis
      by (intro exI [of _ "y # ys"] exI [of _ zs]) (simp add: kept_def)
  qed
qed

lemma last_kept:
  "ys \<noteq> [] \<Longrightarrow> is_text (snd (last ys)) \<Longrightarrow> kept ys \<noteq> [] \<and> last (kept ys) = fst (last ys)"
proof (induction ys rule: rev_induct)
  case Nil
  then show ?case by simp
next
  case (snoc y ys)
  obtain p n where y: "y = (p, n)" by (cases y)
  with snoc.prems show ?case by (cases n) simp_all
qed

lemmas eval_defs =
  exportSelection_def importSelection_def restoreRange_def selectRange_def
  getSelection_def removeAllRanges_def addRange_def createRange_def setStart_def setEnd_def
  collapse_def cloneRange_def selectNodeContents_def toString_def contained_def
  range_collapsed_def start_point_def end_point_def position_of_lex bind_def conforming_def
  loopBody_def visitText_def checkStart_def checkEnd_def pop_def foundEnd_def
  TEXT_NODE_def ELEMENT_NODE_def hello_doc_def break_doc_def snapshot_def

section \<open>The claims\<close>

text \<open>
  C1. For a live selection whose range is valid and lies inside the root, on a conforming
  platform and with the tree unchanged, \<^verbatim>\<open>exportSelection\<close> returns a snapshot,
  \<^verbatim>\<open>importSelection\<close> of that snapshot returns true and installs one range, and a second
  \<^verbatim>\<open>exportSelection\<close> returns a snapshot with the same \<open>start\<close> and \<open>end\<close>.
\<close>

theorem export_import_roundtrip:
  assumes sel: "selection doc = Some (r # rs)"
    and root: "node_at (tree doc) rp = Some root"
    and vr: "valid_range (tree doc) r"
    and sc: "startContainer r = rp @ qs" and ec: "endContainer r = rp @ qe"
  shows "\<exists>s1 r' s2.
    exportSelection conforming doc (Some rp) = Inr (Some s1) \<and>
    importSelection conforming doc (Some rp) (Some s1) = (True, doc\<lparr>selection := Some [r']\<rparr>) \<and>
    exportSelection conforming (doc\<lparr>selection := Some [r']\<rparr>) (Some rp) = Inr (Some s2) \<and>
    start s2 = start s1 \<and> end' s2 = end' s1"
proof -
  let ?s1 = "\<lparr>start = int (text_before root qs (startOffset r)),
               end' = int (text_before root qe (endOffset r)),
               startContainer' = Some (startContainer r),
               endContainer' = Some (endContainer r),
               collapsed = range_collapsed r\<rparr>"
  have e1: "exportSelection conforming doc (Some rp) = Inr (Some ?s1)"
    by (rule export_within_root [OF sel root vr sc ec])
  from valid_range_monotone [OF vr] text_before_shift [OF root, of qs "startOffset r"]
    text_before_shift [OF root, of qe "endOffset r"]
  have le: "text_before root qs (startOffset r) \<le> text_before root qe (endOffset r)"
    by (simp add: sc ec)
  from vr have "valid_point root (qe, endOffset r)"
    by (simp add: valid_range_def end_point_def ec valid_point_append [OF root])
  then have top: "text_before root qe (endOffset r) \<le> length (text_of root)"
    by (rule text_before_le)
  have "\<exists>r' s2. importSelection conforming doc (Some rp) (Some ?s1) =
      (True, doc\<lparr>selection := Some [r']\<rparr>) \<and>
    (start ?s1 = end' ?s1 \<longrightarrow> range_collapsed r') \<and>
    exportSelection conforming (doc\<lparr>selection := Some [r']\<rparr>) (Some rp) = Inr (Some s2) \<and>
    start s2 = start ?s1 \<and> end' s2 = end' ?s1 \<and> collapsed s2 = range_collapsed r'"
    by (rule import_then_export [OF root]) (use sel le top in simp_all)
  with e1 show ?thesis by blast
qed

theorem export_import_roundtrip_witness:
  "valid_range (tree spans_doc)
     \<lparr>startContainer = [0, 0, 0], startOffset = 3, endContainer = [0, 2, 0], endOffset = 3\<rparr> \<and>
   (\<exists>s1 r' s2.
      exportSelection conforming spans_doc (Some [0]) = Inr (Some s1) \<and>
      importSelection conforming spans_doc (Some [0]) (Some s1) =
        (True, spans_doc\<lparr>selection := Some [r']\<rparr>) \<and>
      exportSelection conforming (spans_doc\<lparr>selection := Some [r']\<rparr>) (Some [0]) =
        Inr (Some s2) \<and>
      start s2 = start s1 \<and> end' s2 = end' s1)"
proof -
  let ?r = "\<lparr>startContainer = [0, 0, 0], startOffset = 3, endContainer = [0, 2, 0], endOffset = 3\<rparr>"
  have v: "valid_range (tree spans_doc) ?r"
    by (simp add: valid_range_def valid_point_def spans_doc_def start_point_def end_point_def
        position_of_lex)
  have s: "selection spans_doc = Some (?r # [])" by (simp add: spans_doc_def)
  have n: "node_at (tree spans_doc) [0] =
    Some (Element [Element [Text ''Hello ''], Comment ''x'', Element [Text ''World'']])"
    by (simp add: spans_doc_def)
  from export_import_roundtrip [OF s n v, of "[0, 0]" "[2, 0]"] v show ?thesis by simp
qed

text \<open>
  C2. When the walk is at a text node \<open>p\<close> with data \<open>d\<close>, with counter
  \<open>charIndex\<close> and \<open>nodeEnd = charIndex + length d\<close>, on a conforming platform: the
  start check and then the end check both return; if the start was not found and
  \<open>charIndex \<le> start \<le> nodeEnd\<close>, the start check sets the range's start to
  \<open>(p, start - charIndex)\<close> and marks the start found; if the start is found when the end
  check runs and \<open>charIndex \<le> end \<le> nodeEnd\<close>, the end check sets the range's end to
  \<open>(p, end - charIndex)\<close> and sets \<open>stop\<close>, and the walk returns there. Both tests are
  \<open>\<le>\<close>, so they hold for an empty text node, where \<open>nodeEnd = charIndex\<close>.
\<close>

theorem text_node_boundaries:
  assumes nd: "node st = Some (p, Text d)" and ns: "\<not> stop st"
    and at: "node_at t p = Some (Text d)"
  shows "\<exists>st1 st2.
    checkStart conforming t s p (charIndex st + length d) (st\<lparr>visited := visited st @ [p]\<rparr>) = Inr st1 \<and>
    checkEnd conforming t s p (charIndex st + length d) st1 = Inr st2 \<and>
    loopBody conforming t s st =
      Inr (if stop st2 then st2\<lparr>charIndex := charIndex st + length d\<rparr>
           else pop (st2\<lparr>charIndex := charIndex st + length d\<rparr>)) \<and>
    (\<not> foundStart st \<and> int (charIndex st) \<le> start s \<and> start s \<le> int (charIndex st + length d) \<longrightarrow>
       foundStart st1 \<and> start_point (range' st1) = (p, nat (start s - int (charIndex st)))) \<and>
    (foundStart st1 \<and> int (charIndex st) \<le> end' s \<and> end' s \<le> int (charIndex st + length d) \<longrightarrow>
       stop st2 \<and> end_point (range' st2) = (p, nat (end' s - int (charIndex st))) \<and>
       walk conforming t s st = Inr (st2\<lparr>charIndex := charIndex st + length d\<rparr>))"
proof -
  let ?k = "charIndex st + length d"
  let ?stv = "st\<lparr>visited := visited st @ [p]\<rparr>"
  from checkStart_ok [OF at, of ?k ?stv s] obtain st1 where
    c1: "checkStart conforming t s p ?k ?stv = Inr st1"
    and k1: "charIndex st1 = charIndex st"
    and h1: "\<not> foundStart st \<and> int (charIndex st) \<le> start s \<and> start s \<le> int ?k \<longrightarrow>
       foundStart st1 \<and> start_point (range' st1) = (p, nat (start s - int (charIndex st)))"
    by auto
  from checkEnd_ok [OF at, of ?k st1 s] k1 obtain st2 where
    c2: "checkEnd conforming t s p ?k st1 = Inr st2"
    and h2: "foundStart st1 \<and> int (charIndex st) \<le> end' s \<and> end' s \<le> int ?k \<longrightarrow>
       stop st2 \<and> end_point (range' st2) = (p, nat (end' s - int (charIndex st)))"
    by auto
  let ?st3 = "st2\<lparr>charIndex := ?k\<rparr>"
  have v: "visitText conforming t s p (Text d) ?stv = Inr ?st3"
    by (simp add: visitText_def c1 c2 bind_def)
  have lb: "loopBody conforming t s st = Inr (if stop st2 then ?st3 else pop ?st3)"
    using nd by (simp add: loopBody_Text v bind_def)
  have w: "stop st2 \<Longrightarrow> walk conforming t s st = Inr ?st3"
    using nd ns lb by (simp add: walk_step walk_done)
  from c1 c2 lb h1 h2 w show ?thesis by blast
qed

theorem text_node_boundaries_witness:
  "\<exists>st1 st2.
     checkStart conforming (tree empty_text_doc) (snapshot 0 0) [0, 0] 0
       (at_empty_text\<lparr>visited := [[0], [0, 0]]\<rparr>) = Inr st1 \<and>
     checkEnd conforming (tree empty_text_doc) (snapshot 0 0) [0, 0] 0 st1 = Inr st2 \<and>
     foundStart st1 \<and> start_point (range' st1) = ([0, 0], 0) \<and>
     stop st2 \<and> end_point (range' st2) = ([0, 0], 0) \<and>
     walk conforming (tree empty_text_doc) (snapshot 0 0) at_empty_text =
       Inr (st2\<lparr>charIndex := 0\<rparr>)"
proof -
  have h: "node at_empty_text = Some ([0, 0], Text [])" "\<not> stop at_empty_text"
    "node_at (tree empty_text_doc) [0, 0] = Some (Text [])"
    by (simp_all add: at_empty_text_def empty_text_doc_def)
  from text_node_boundaries [OF h, of "snapshot 0 0"] show ?thesis
    by (auto simp: at_empty_text_def snapshot_def)
qed

text \<open>
  C3, as amended. When the snapshot's \<open>end\<close> exceeds the length of the root's text, on
  a conforming platform \<^verbatim>\<open>importSelection\<close> raises nothing and returns true; the end
  boundary is never set (\<open>stop\<close> stays false), so the range it applies is collapsed at
  its start and is not extended to the end of the content. That start is the start
  boundary when one is found, which is when \<open>0 \<le> start \<le>\<close> that length and the root
  has a text node: the first text node with \<open>counter \<le> start \<le> nodeEnd\<close>, at the local
  offset \<open>start - counter\<close>. Otherwise, and so for every \<open>start\<close> that is negative or
  beyond the text, no start boundary is found and the range stays where it was created,
  at offset 0 of the root. When \<open>0 \<le> start \<le>\<close> that length and the document has a
  selection object, exporting the applied selection gives a collapsed snapshot with
  \<open>start = end = \<close> the snapshot's \<open>start\<close>.
\<close>

theorem import_end_beyond_text:
  assumes root: "node_at (tree doc) rp = Some root"
    and far: "int (length (text_of root)) < end' s"
  shows "\<exists>st. restoreRange conforming (tree doc) rp s = Inr st \<and> \<not> stop st \<and>
    importSelection conforming doc (Some rp) (Some s) =
      (True, if selection doc = None then doc else doc\<lparr>selection := Some [range' st]\<rparr>) \<and>
    range_collapsed (range' st) \<and>
    start_point (range' st) =
      (if 0 \<le> start s \<and> start s \<le> int (length (text_of root))
       then case locate (start s) 0 (tree_order rp root) of None \<Rightarrow> (rp, 0) | Some A \<Rightarrow> A
       else (rp, 0)) \<and>
    foundStart st =
      (0 \<le> start s \<and> start s \<le> int (length (text_of root)) \<and>
       locate (start s) 0 (tree_order rp root) \<noteq> None) \<and>
    (0 \<le> start s \<and> start s \<le> int (length (text_of root)) \<and> selection doc \<noteq> None \<longrightarrow>
      (\<exists>s2. exportSelection conforming (doc\<lparr>selection := Some [range' st]\<rparr>) (Some rp) =
          Inr (Some s2) \<and>
        start s2 = start s \<and> end' s2 = start s \<and> collapsed s2))"
proof -
  from restoreRange_end_beyond [OF root far] obtain st where
    st: "restoreRange conforming (tree doc) rp s = Inr st" and ns: "\<not> stop st"
    and rc: "range_collapsed (range' st)"
    and sp: "start_point (range' st) =
      (if 0 \<le> start s \<and> start s \<le> int (length (text_of root))
       then case locate (start s) 0 (tree_order rp root) of None \<Rightarrow> (rp, 0) | Some A \<Rightarrow> A
       else (rp, 0))"
    and fs: "foundStart st =
      (0 \<le> start s \<and> start s \<le> int (length (text_of root)) \<and>
       locate (start s) 0 (tree_order rp root) \<noteq> None)"
    by blast
  have im: "importSelection conforming doc (Some rp) (Some s) =
      (True, if selection doc = None then doc else doc\<lparr>selection := Some [range' st]\<rparr>)"
    by (simp add: importSelection_def st selectRange_conforming_total)
  have ex: "\<exists>s2. exportSelection conforming (doc\<lparr>selection := Some [range' st]\<rparr>) (Some rp) =
          Inr (Some s2) \<and>
        start s2 = start s \<and> end' s2 = start s \<and> collapsed s2"
    if h: "0 \<le> start s \<and> start s \<le> int (length (text_of root)) \<and> selection doc \<noteq> None"
  proof -
    let ?s' = "s\<lparr>end' := start s\<rparr>"
    let ?xs = "tree_order rp root"
    from h far have le: "start s \<le> end' s" by simp
    from restoreRange_expected [OF root, of s] h le st have
      e1: "(foundStart st, stop st, range' st) = expected (rp, 0) (start s) (end' s) 0 ?xs"
      by auto
    from restoreRange_expected [OF root, of ?s'] h obtain st' where
      st': "restoreRange conforming (tree doc) rp ?s' = Inr st'"
      and e2: "(foundStart st', stop st', range' st') = expected (rp, 0) (start s) (start s) 0 ?xs"
      by auto
    have "locate (end' s) 0 ?xs = None" using far by (intro locate_far) (simp add: text_sum_all)
    from expected_far [OF this, of "(rp, 0)" "start s"] e1 e2
    have req: "range' st = range' st'" by (metis snd_conv)
    have "\<exists>r s2. importSelection conforming doc (Some rp) (Some ?s') =
        (True, doc\<lparr>selection := Some [r]\<rparr>) \<and>
      (start ?s' = end' ?s' \<longrightarrow> range_collapsed r) \<and>
      exportSelection conforming (doc\<lparr>selection := Some [r]\<rparr>) (Some rp) = Inr (Some s2) \<and>
      start s2 = start ?s' \<and> end' s2 = end' ?s' \<and> collapsed s2 = range_collapsed r"
      by (rule import_then_export [OF root]) (use h in simp_all)
    then obtain r s2 where
      i: "importSelection conforming doc (Some rp) (Some ?s') = (True, doc\<lparr>selection := Some [r]\<rparr>)"
      and e: "exportSelection conforming (doc\<lparr>selection := Some [r]\<rparr>) (Some rp) = Inr (Some s2)"
      and o: "start s2 = start s" "end' s2 = start s" "collapsed s2 = range_collapsed r" by auto
    from h have sel: "selection doc \<noteq> None" by simp
    from i st' have "doc\<lparr>selection := Some [range' st']\<rparr> = doc\<lparr>selection := Some [r]\<rparr>"
      by (simp add: importSelection_def selectRange_conforming [OF sel])
    then have "selection (doc\<lparr>selection := Some [range' st']\<rparr>) =
      selection (doc\<lparr>selection := Some [r]\<rparr>)"
      by (rule arg_cong)
    then have r: "r = range' st" by (simp add: req)
    with e o rc show ?thesis by simp
  qed
  from st ns im rc sp fs ex show ?thesis by (intro exI [of _ st]) blast
qed

theorem import_end_beyond_text_witness:
  "(\<exists>st. restoreRange conforming (tree hello_doc) [0] (snapshot 0 999) = Inr st \<and> \<not> stop st \<and>
      importSelection conforming hello_doc (Some [0]) (Some (snapshot 0 999)) =
        (True, hello_doc\<lparr>selection := Some [range' st]\<rparr>) \<and>
      range_collapsed (range' st) \<and> start_point (range' st) = ([0, 0], 0) \<and> foundStart st \<and>
      (\<exists>s2. exportSelection conforming (hello_doc\<lparr>selection := Some [range' st]\<rparr>) (Some [0]) =
          Inr (Some s2) \<and>
        start s2 = 0 \<and> end' s2 = 0 \<and> collapsed s2)) \<and>
   (\<exists>st. restoreRange conforming (tree hello_doc) [0] (snapshot 12 999) = Inr st \<and> \<not> stop st \<and>
      importSelection conforming hello_doc (Some [0]) (Some (snapshot 12 999)) =
        (True, hello_doc\<lparr>selection := Some [range' st]\<rparr>) \<and>
      range_collapsed (range' st) \<and> start_point (range' st) = ([0], 0) \<and> \<not> foundStart st)"
proof -
  have n: "node_at (tree hello_doc) [0] = Some (Element [Text ''Hello World''])"
    by (simp add: hello_doc_def)
  have f: "int (length (text_of (Element [Text ''Hello World'']))) < end' (snapshot a 999)"
    if "a = 0 \<or> a = 12" for a
    by (simp add: snapshot_def)
  from import_end_beyond_text [OF n f, of 0] import_end_beyond_text [OF n f, of 12]
  show ?thesis
    by (simp add: hello_doc_def snapshot_def)
qed

text \<open>
  C3 as stated fails: for the root text "Hello World" (11 characters) and the snapshot
  \<open>{start: 0, end: 999}\<close> the selection applied is the cursor at offset 0 of the text
  node, and exporting it gives \<open>start = end = 0\<close>, not a selection up to the last
  character.
\<close>

theorem import_end_beyond_text_counterexample:
  "importSelection conforming hello_doc (Some [0]) (Some (snapshot 0 999)) =
     (True, hello_doc\<lparr>selection := Some [\<lparr>startContainer = [0, 0], startOffset = 0,
                                             endContainer = [0, 0], endOffset = 0\<rparr>]\<rparr>) \<and>
   exportSelection conforming
     (hello_doc\<lparr>selection := Some [\<lparr>startContainer = [0, 0], startOffset = 0,
                                     endContainer = [0, 0], endOffset = 0\<rparr>]\<rparr>) (Some [0]) =
     Inr (Some \<lparr>start = 0, end' = 0, startContainer' = Some [0, 0],
                endContainer' = Some [0, 0], collapsed = True\<rparr>) \<and>
   length (text_of (Element [Text ''Hello World''])) = 11"
  by (simp add: eval_defs walk.simps)

text \<open>
  C4, as amended. \<^verbatim>\<open>importSelection\<close> returns true if and only if root and snapshot are
  not null and no exception is raised while the range is built and applied; it returns
  false for a null root or snapshot and when an exception is raised. On a conforming
  platform, with root a node of the document, no exception is raised for any snapshot: it
  returns true whether or not a start boundary was located, and the selection, when the
  document has one, is replaced by the range the walk built.
\<close>

theorem import_result:
  "(fst (importSelection pf doc root selectionState) \<longleftrightarrow>
      (\<exists>rp s st doc'. root = Some rp \<and> selectionState = Some s \<and>
         restoreRange pf (tree doc) rp s = Inr st \<and>
         selectRange pf doc (range' st) = Inr doc')) \<and>
   (\<forall>rp s n. node_at (tree doc) rp = Some n \<longrightarrow>
      (\<exists>st. restoreRange conforming (tree doc) rp s = Inr st \<and>
         importSelection conforming doc (Some rp) (Some s) =
           (True, if selection doc = None then doc else doc\<lparr>selection := Some [range' st]\<rparr>)))"
proof (intro conjI allI impI)
  show "fst (importSelection pf doc root selectionState) \<longleftrightarrow>
      (\<exists>rp s st doc'. root = Some rp \<and> selectionState = Some s \<and>
         restoreRange pf (tree doc) rp s = Inr st \<and>
         selectRange pf doc (range' st) = Inr doc')"
    by (auto simp: importSelection_def split: option.splits sum.splits)
next
  fix rp s n
  assume "node_at (tree doc) rp = Some n"
  from restoreRange_total [OF this, of s] obtain st where
    st: "restoreRange conforming (tree doc) rp s = Inr st" by blast
  then show "\<exists>st. restoreRange conforming (tree doc) rp s = Inr st \<and>
         importSelection conforming doc (Some rp) (Some s) =
           (True, if selection doc = None then doc else doc\<lparr>selection := Some [range' st]\<rparr>)"
    by (simp add: importSelection_def selectRange_conforming_total)
qed

theorem import_result_witness:
  "\<exists>st. restoreRange conforming (tree hello_doc) [0] (snapshot 0 5) = Inr st \<and>
     importSelection conforming hello_doc (Some [0]) (Some (snapshot 0 5)) =
       (True, hello_doc\<lparr>selection := Some [range' st]\<rparr>)"
proof -
  have n: "node_at (tree hello_doc) [0] = Some (Element [Text ''Hello World''])"
    by (simp add: hello_doc_def)
  from import_result [of conforming hello_doc None None] n
  have "\<exists>st. restoreRange conforming (tree hello_doc) [0] (snapshot 0 5) = Inr st \<and>
     importSelection conforming hello_doc (Some [0]) (Some (snapshot 0 5)) =
       (True, if selection hello_doc = None then hello_doc
              else hello_doc\<lparr>selection := Some [range' st]\<rparr>)"
    by blast
  then show ?thesis by (simp add: hello_doc_def)
qed

text \<open>
  C4 as stated fails: for the root text "Hello World" and the snapshot
  \<open>{start: 12, end: 12}\<close> no start boundary is located (\<open>foundStart\<close> is false when the
  walk ends) and \<^verbatim>\<open>importSelection\<close> still returns true, with the cursor put at the
  start of the root.
\<close>

theorem import_result_counterexample:
  "restoreRange conforming (tree hello_doc) [0] (snapshot 12 12) =
     Inr \<lparr>node = None, nodeStack = [], charIndex = 11, foundStart = False, stop = False,
          range' = \<lparr>startContainer = [0], startOffset = 0,
                    endContainer = [0], endOffset = 0\<rparr>,
          visited = [[0], [0, 0]]\<rparr> \<and>
   importSelection conforming hello_doc (Some [0]) (Some (snapshot 12 12)) =
     (True, hello_doc\<lparr>selection := Some [\<lparr>startContainer = [0], startOffset = 0,
                                             endContainer = [0], endOffset = 0\<rparr>]\<rparr>)"
  by (simp add: eval_defs walk.simps)

text \<open>
  C5. For a selection whose range starts at a valid point inside the root,
  \<^verbatim>\<open>exportSelection\<close> returns the snapshot whose \<open>start\<close> is the length of the string
  of the range from the beginning of the root's content to the real range's start, whose
  \<open>end\<close> is \<open>start\<close> plus the length of the real range's string, and whose
  \<open>collapsed\<close> is the range's collapsed flag.
\<close>

theorem export_computation:
  assumes sel: "selection doc = Some (r # rs)"
    and root: "node_at (tree doc) rp = Some root"
    and vs: "valid_point (tree doc) (start_point r)"
    and sc: "startContainer r = rp @ qs"
  shows "exportSelection conforming doc (Some rp) =
    Inr (Some \<lparr>start = int (length (toString (tree doc)
                   \<lparr>startContainer = rp, startOffset = 0,
                    endContainer = startContainer r, endOffset = startOffset r\<rparr>)),
               end' = int (length (toString (tree doc)
                   \<lparr>startContainer = rp, startOffset = 0,
                    endContainer = startContainer r, endOffset = startOffset r\<rparr>)) +
                 int (length (toString (tree doc) r)),
               startContainer' = Some (startContainer r),
               endContainer' = Some (endContainer r),
               collapsed = range_collapsed r\<rparr>)"
proof -
  let ?t = "tree doc"
  from vs obtain ns where ns: "node_at ?t (startContainer r) = Some ns" "startOffset r \<le> node_length ns"
    by (auto simp: start_point_def dest: valid_point_node)
  have s1: "selectNodeContents ?t (cloneRange r) rp =
    Inr \<lparr>startContainer = rp, startOffset = 0, endContainer = rp, endOffset = node_length root\<rparr>"
    using root by (simp add: selectNodeContents_def)
  have nb: "\<not> (rp @ qs) @ [startOffset r] < rp @ [0]"
    using Nil_le_snoc [of qs "startOffset r"] by (simp add: append_less_append not_less)
  have s2: "setEnd conforming ?t
    \<lparr>startContainer = rp, startOffset = 0, endContainer = rp, endOffset = node_length root\<rparr>
    (startContainer r) (startOffset r) =
    Inr \<lparr>startContainer = rp, startOffset = 0,
         endContainer = startContainer r, endOffset = startOffset r\<rparr>"
    using ns nb by (simp add: setEnd_def conforming_def position_Before start_point_def sc)
  show ?thesis
    by (simp add: exportSelection_def getSelection_def sel s1 s2 bind_def Let_def)
qed

theorem export_computation_witness:
  "exportSelection conforming spans_doc (Some [0]) =
    Inr (Some \<lparr>start = 3, end' = 3 + 6, startContainer' = Some [0, 0, 0],
               endContainer' = Some [0, 2, 0], collapsed = False\<rparr>)"
proof -
  let ?r = "\<lparr>startContainer = [0, 0, 0], startOffset = 3, endContainer = [0, 2, 0], endOffset = 3\<rparr>"
  have s: "selection spans_doc = Some (?r # [])" by (simp add: spans_doc_def)
  have n: "node_at (tree spans_doc) [0] =
    Some (Element [Element [Text ''Hello ''], Comment ''x'', Element [Text ''World'']])"
    by (simp add: spans_doc_def)
  have v: "valid_point (tree spans_doc) (start_point ?r)"
    by (simp add: valid_point_def spans_doc_def start_point_def)
  have l1: "length (toString (tree spans_doc)
    \<lparr>startContainer = [0], startOffset = 0, endContainer = [0, 0, 0], endOffset = 3\<rparr>) = 3"
    by (simp add: eval_defs spans_doc_def)
  have l2: "length (toString (tree spans_doc) ?r) = 6"
    by (simp add: eval_defs spans_doc_def)
  from export_computation [OF s n v, of "[0, 0]"] l1 l2 show ?thesis
    by (simp add: range_collapsed_def)
qed

text \<open>
  C6, as amended. Every snapshot returned by \<^verbatim>\<open>exportSelection\<close> has
  \<open>0 \<le> start \<le> end\<close>, and a snapshot whose \<open>collapsed\<close> field is true has
  \<open>start = end\<close>. The field is the range's own collapsed flag, so the converse fails
  for a range that is not collapsed and selects no text.
\<close>

theorem export_offsets_ordered:
  assumes "exportSelection pf doc root = Inr (Some s)"
  shows "0 \<le> start s \<and> start s \<le> end' s \<and> (collapsed s \<longrightarrow> start s = end' s)"
  using assms
  by (auto simp: exportSelection_def bind_def Let_def toString_collapsed
      split: option.splits list.splits sum.splits)

theorem export_offsets_ordered_witness:
  "exportSelection conforming
     (hello_doc\<lparr>selection := Some [\<lparr>startContainer = [0, 0], startOffset = 3,
                                     endContainer = [0, 0], endOffset = 3\<rparr>]\<rparr>) (Some [0]) =
     Inr (Some \<lparr>start = 3, end' = 3, startContainer' = Some [0, 0],
                endContainer' = Some [0, 0], collapsed = True\<rparr>) \<and>
   (0::int) \<le> 3 \<and> (3::int) \<le> 3"
proof -
  have e: "exportSelection conforming
     (hello_doc\<lparr>selection := Some [\<lparr>startContainer = [0, 0], startOffset = 3,
                                     endContainer = [0, 0], endOffset = 3\<rparr>]\<rparr>) (Some [0]) =
     Inr (Some \<lparr>start = 3, end' = 3, startContainer' = Some [0, 0],
                endContainer' = Some [0, 0], collapsed = True\<rparr>)"
    by (simp add: eval_defs)
  from export_offsets_ordered [OF e] e show ?thesis by simp
qed

text \<open>
  C6 as stated fails: on \<open>break_doc\<close> the exported snapshot has \<open>start = end = 0\<close>
  and \<open>collapsed = False\<close>.
\<close>

theorem export_collapsed_counterexample:
  "exportSelection conforming break_doc (Some [0]) =
     Inr (Some \<lparr>start = 0, end' = 0, startContainer' = Some [0],
                endContainer' = Some [0], collapsed = False\<rparr>)"
  by (simp add: eval_defs)

text \<open>
  C7, as amended. On a conforming platform the walk of \<^verbatim>\<open>importSelection\<close> visits, in
  depth-first pre-order, the element and text nodes of the root's subtree up to and
  including the text node at which the end boundary is set, and all of them when the end
  boundary is never set; nodes of other types are never visited, and the character counter
  is the total length of the text nodes visited.
\<close>

theorem walk_visits_preorder:
  assumes root: "node_at t rp = Some root"
  shows "\<exists>st. restoreRange conforming t rp s = Inr st \<and>
    prefix (visited st) (dfs rp root) \<and>
    (\<not> stop st \<longrightarrow> visited st = dfs rp root) \<and>
    (stop st \<longrightarrow> visited st \<noteq> [] \<and> last (visited st) = endContainer (range' st)) \<and>
    charIndex st = char_count t (visited st)"
proof -
  let ?xs = "tree_order rp root"
  let ?st0 = "clear (initial rp root)"
  from restoreRange_total [OF root, of s] obtain st where
    st: "restoreRange conforming t rp s = Inr st" by blast
  with restoreRange_process [OF root, of s]
  have p: "process conforming t s ?xs ?st0 = Inr (clear st)" by simp
  from process_trace [OF p] obtain ys zs where x: "?xs = ys @ zs"
    and vs: "visited st = kept ys"
    and ci: "charIndex st = text_sum (\<lambda>x l. True) ys"
    and ns: "\<not> stop st \<longrightarrow> zs = []"
    and l: "stop st \<longrightarrow> ys \<noteq> [] \<and> is_text (snd (last ys)) \<and>
       fst (last ys) = endContainer (range' st)"
    by (auto simp: initial_def)
  have d: "dfs rp root = kept ys @ kept zs"
    using kept_tree_order(1) [of rp root] x by simp
  have v: "\<forall>x n. (x, n) \<in> set ys \<longrightarrow> node_at t x = Some n"
    using tree_order_valid [OF root] x by simp
  have 1: "prefix (visited st) (dfs rp root)" by (simp add: vs d)
  have 2: "\<not> stop st \<longrightarrow> visited st = dfs rp root" using ns by (simp add: vs d)
  have 3: "stop st \<longrightarrow> visited st \<noteq> [] \<and> last (visited st) = endContainer (range' st)"
    using l last_kept [of ys] by (auto simp: vs)
  have 4: "charIndex st = char_count t (visited st)"
    by (simp add: vs ci char_count_kept [OF v])
  from st 1 2 3 4 show ?thesis by blast
qed

theorem walk_visits_preorder_witness:
  "restoreRange conforming (tree spans_doc) [0] (snapshot 3 99) =
     Inr \<lparr>node = None, nodeStack = [], charIndex = 11, foundStart = True, stop = False,
          range' = \<lparr>startContainer = [0, 0, 0], startOffset = 3,
                    endContainer = [0, 0, 0], endOffset = 3\<rparr>,
          visited = [[0], [0, 0], [0, 0, 0], [0, 2], [0, 2, 0]]\<rparr> \<and>
   [[0], [0, 0], [0, 0, 0], [0, 2], [0, 2, 0]] =
     dfs [0] (Element [Element [Text ''Hello ''], Comment ''x'', Element [Text ''World'']]) \<and>
   char_count (tree spans_doc) [[0], [0, 0], [0, 0, 0], [0, 2], [0, 2, 0]] = 11"
proof -
  have e: "restoreRange conforming (tree spans_doc) [0] (snapshot 3 99) =
     Inr \<lparr>node = None, nodeStack = [], charIndex = 11, foundStart = True, stop = False,
          range' = \<lparr>startContainer = [0, 0, 0], startOffset = 3,
                    endContainer = [0, 0, 0], endOffset = 3\<rparr>,
          visited = [[0], [0, 0], [0, 0, 0], [0, 2], [0, 2, 0]]\<rparr>"
    by (simp add: eval_defs spans_doc_def walk.simps)
  have n: "node_at (tree spans_doc) [0] =
    Some (Element [Element [Text ''Hello ''], Comment ''x'', Element [Text ''World'']])"
    by (simp add: spans_doc_def)
  from walk_visits_preorder [OF n, of "snapshot 3 99"] e show ?thesis by auto
qed

text \<open>
  C7 as stated fails: with the snapshot \<open>{start: 0, end: 2}\<close> on \<open>spans_doc\<close> the walk
  stops in the first text node and never visits the second element and its text node,
  which a depth-first pre-order traversal of the root visits.
\<close>

theorem walk_visits_preorder_counterexample:
  "restoreRange conforming (tree spans_doc) [0] (snapshot 0 2) =
     Inr \<lparr>node = Some ([0, 0, 0], Text ''Hello ''),
          nodeStack = [([0, 2], Element [Text ''World'']), ([0, 1], Comment ''x'')],
          charIndex = 6, foundStart = True, stop = True,
          range' = \<lparr>startContainer = [0, 0, 0], startOffset = 0,
                    endContainer = [0, 0, 0], endOffset = 2\<rparr>,
          visited = [[0], [0, 0], [0, 0, 0]]\<rparr> \<and>
   dfs [0] (Element [Element [Text ''Hello ''], Comment ''x'', Element [Text ''World'']]) =
     [[0], [0, 0], [0, 0, 0], [0, 2], [0, 2, 0]]"
  by (simp add: eval_defs spans_doc_def walk.simps)

text \<open>
  C8, as amended. An exception raised while \<^verbatim>\<open>importSelection\<close> builds or applies the
  range is caught: \<^verbatim>\<open>importSelection\<close> returns false. The live selection is unchanged
  when the exception is raised while the range is built, or by
  \<^verbatim>\<open>removeAllRanges\<close>; when \<^verbatim>\<open>addRange\<close> raises it,
  \<^verbatim>\<open>removeAllRanges\<close> has already run and the selection is left empty.
\<close>

theorem import_exception:
  "(restoreRange pf (tree doc) rp s = Inl e \<longrightarrow>
      importSelection pf doc (Some rp) (Some s) = (False, doc)) \<and>
   (restoreRange pf (tree doc) rp s = Inr st \<and> selectRange pf doc (range' st) = Inl (e, doc') \<longrightarrow>
      importSelection pf doc (Some rp) (Some s) = (False, doc') \<and>
      (pf RemoveAllRanges \<longrightarrow> doc' = doc) \<and>
      (\<not> pf RemoveAllRanges \<longrightarrow> pf AddRange \<and> doc' = doc\<lparr>selection := Some []\<rparr>))"
  by (auto simp: importSelection_def selectRange_def getSelection_def removeAllRanges_def
      addRange_def split: option.splits sum.splits if_splits)

theorem import_exception_witness:
  "restoreRange (\<lambda>a. a = SetEnd) (tree cursor_doc) [0] (snapshot 0 5) = Inl (Rejected SetEnd) \<and>
   importSelection (\<lambda>a. a = SetEnd) cursor_doc (Some [0]) (Some (snapshot 0 5)) =
     (False, cursor_doc)"
proof -
  have e: "restoreRange (\<lambda>a. a = SetEnd) (tree cursor_doc) [0] (snapshot 0 5) =
    Inl (Rejected SetEnd)"
    by (simp add: eval_defs cursor_doc_def walk.simps)
  from import_exception [of "\<lambda>a. a = SetEnd" cursor_doc "[0]" "snapshot 0 5" "Rejected SetEnd"] e
  show ?thesis by blast
qed

text \<open>
  C8 as stated fails: on a platform whose \<^verbatim>\<open>addRange\<close> raises, \<^verbatim>\<open>importSelection\<close>
  returns false and the selection, a cursor before the call, is empty after it.
\<close>

theorem import_exception_counterexample:
  "importSelection (\<lambda>a. a = AddRange) cursor_doc (Some [0]) (Some (snapshot 0 5)) =
     (False, cursor_doc\<lparr>selection := Some []\<rparr>) \<and>
   selection cursor_doc =
     Some [\<lparr>startContainer = [0, 0], startOffset = 3, endContainer = [0, 0], endOffset = 3\<rparr>]"
  by (simp add: eval_defs cursor_doc_def walk.simps)

text \<open>
  C9. For a snapshot with \<open>start = end = k\<close> and \<open>0 \<le> k \<le>\<close> the length of the root's
  text, on a conforming platform whose document has a selection object,
  \<^verbatim>\<open>importSelection\<close> returns true and installs one collapsed range, and exporting it
  again gives \<open>start = end = k\<close>.
\<close>

theorem collapsed_cursor_restored:
  assumes root: "node_at (tree doc) rp = Some root" and sel: "selection doc \<noteq> None"
    and k: "start s = k" "end' s = k" and k0: "0 \<le> k" and kt: "k \<le> int (length (text_of root))"
  shows "\<exists>r s2. importSelection conforming doc (Some rp) (Some s) =
      (True, doc\<lparr>selection := Some [r]\<rparr>) \<and> range_collapsed r \<and>
    exportSelection conforming (doc\<lparr>selection := Some [r]\<rparr>) (Some rp) = Inr (Some s2) \<and>
    start s2 = k \<and> end' s2 = k \<and> collapsed s2"
proof -
  have "\<exists>r s2. importSelection conforming doc (Some rp) (Some s) =
      (True, doc\<lparr>selection := Some [r]\<rparr>) \<and>
    (start s = end' s \<longrightarrow> range_collapsed r) \<and>
    exportSelection conforming (doc\<lparr>selection := Some [r]\<rparr>) (Some rp) = Inr (Some s2) \<and>
    start s2 = start s \<and> end' s2 = end' s \<and> collapsed s2 = range_collapsed r"
    by (rule import_then_export [OF root sel]) (use k k0 kt in simp_all)
  with k show ?thesis by auto
qed

theorem collapsed_cursor_restored_witness:
  "\<exists>r s2. importSelection conforming hello_doc (Some [0]) (Some (snapshot 11 11)) =
      (True, hello_doc\<lparr>selection := Some [r]\<rparr>) \<and> range_collapsed r \<and>
    exportSelection conforming (hello_doc\<lparr>selection := Some [r]\<rparr>) (Some [0]) = Inr (Some s2) \<and>
    start s2 = 11 \<and> end' s2 = 11 \<and> collapsed s2"
  by (rule collapsed_cursor_restored [where root = "Element [Text ''Hello World'']"])
     (simp_all add: hello_doc_def snapshot_def)

text \<open>
  C10. The result of \<^verbatim>\<open>importSelection\<close>, its boolean and the document it leaves,
  depends only on the snapshot's \<open>start\<close> and \<open>end\<close>: two snapshots that agree on
  both give the same result on the same platform, document and root, whatever their
  \<open>collapsed\<close> flags and node hints are.
\<close>

theorem import_reads_offsets_only:
  assumes "start s1 = start s2" "end' s1 = end' s2"
  shows "importSelection pf doc root (Some s1) = importSelection pf doc root (Some s2)"
  by (cases root) (simp_all add: importSelection_def restoreRange_cong [OF assms])

theorem import_reads_offsets_only_witness:
  "importSelection conforming hello_doc (Some [0])
     (Some \<lparr>start = 2, end' = 5, startContainer' = None, endContainer' = None,
            collapsed = False\<rparr>) =
   importSelection conforming hello_doc (Some [0])
     (Some \<lparr>start = 2, end' = 5, startContainer' = Some [7], endContainer' = Some [0, 0],
            collapsed = True\<rparr>)"
  by (rule import_reads_offsets_only) simp_all

end
